theory Spec2Isabelle
  imports Complex_Main "HOL-Library.Sublist"
begin

section \<open>Text and numbers\<close>

text \<open>
  A Python \<open>str\<close> is a sequence of Unicode code points; it is modelled as a list of
  code points, so that the pound and euro signs of \<open>MONEY_RE\<close> are single characters.
  \<open>U\<close> turns an ASCII literal into such a text.

  A Python \<open>float\<close> is modelled by the rational number it denotes: the arithmetic of
  \<open>apply_rules\<close> is exact, binary rounding error, infinities and NaN are not modelled.
  Decimal rounding (\<open>round(x, 2)\<close> and the \<open>.2f\<close> format) rounds the exact value
  half-to-even, as CPython does.
\<close>

type_synonym ustr = "nat list"

definition U :: "string \<Rightarrow> ustr" where
  "U s = map of_char s"

definition round_half_even :: "rat \<Rightarrow> int" where
  "round_half_even q =
     (let f = \<lfloor>q\<rfloor>; d = q - of_int f
      in if d < 1 / 2 then f else if 1 / 2 < d then f + 1
         else if even f then f else f + 1)"

definition round2 :: "rat \<Rightarrow> rat" where
  \<comment> \<open>\<open>round(x, 2)\<close>\<close>
  "round2 x = of_int (round_half_even (x * 100)) / 100"

definition eps :: rat where
  \<comment> \<open>the literal \<open>1e-9\<close>\<close>
  "eps = 1 / 1000000000"

section \<open>Price rule engine\<close>

definition apply_rules :: "rat option \<Rightarrow> rat \<Rightarrow> rat \<Rightarrow> rat option" where
  "apply_rules price percent_off absolute_off =
     (case price of
        None \<Rightarrow> None
      | Some price' \<Rightarrow>
          let p = price';
              p = (if percent_off \<noteq> 0 \<and> percent_off > 0
                   then p * (1 - percent_off / 100) else p);
              p = (if absolute_off \<noteq> 0 \<and> absolute_off > 0
                   then p - absolute_off else p)
          in Some (round2 (p + eps)))"

section \<open>Currency formatting\<close>

text \<open>
  \<open>str.upper\<close> and \<open>str.lower\<close> are modelled on the ASCII letters; \<open>upper\<close> also maps
  the long s (U+017F) to \<open>S\<close>, the only other code point whose upper case is a letter of
  a key of \<open>CURRENCY_SYMBOLS\<close>.
\<close>

definition upper :: "ustr \<Rightarrow> ustr" where
  "upper s = map (\<lambda>c. if 97 \<le> c \<and> c \<le> 122 then c - 32 else if c = 383 then 83 else c) s"

definition lower :: "ustr \<Rightarrow> ustr" where
  "lower s = map (\<lambda>c. if 65 \<le> c \<and> c \<le> 90 then c + 32 else c) s"

text \<open>\<open>a or b\<close> on an optional string: \<open>None\<close> and the empty string are falsy.\<close>

definition or_str :: "ustr option \<Rightarrow> ustr \<Rightarrow> ustr" where
  "or_str a b = (case a of None \<Rightarrow> b | Some s \<Rightarrow> if s = [] then b else s)"

definition CURRENCY_SYMBOLS :: "(ustr \<times> ustr) list" where
  "CURRENCY_SYMBOLS =
     [(U ''USD'', U ''$''), (U ''CAD'', U ''CA$''), (U ''usd'', U ''$''), (U ''cad'', U ''CA$'')]"

definition host_currency :: "ustr \<Rightarrow> ustr" where
  "host_currency host =
     (let host = lower host
      in if suffix (U ''.ca'') host \<or> prefix (U ''ca.'') host \<or> sublist (U ''.ca.'') host
         then U ''CAD'' else U ''USD'')"

text \<open>
  The format \<open>{val:,.2f}\<close>: sign, integer part in groups of three, two decimals.
\<close>

fun dec :: "nat \<Rightarrow> ustr" where
  "dec n = (if n < 10 then [48 + n] else dec (n div 10) @ [48 + n mod 10])"

fun group3 :: "ustr \<Rightarrow> ustr" where
  "group3 ds =
     (if length ds \<le> 3 then ds
      else group3 (take (length ds - 3) ds) @ 44 # drop (length ds - 3) ds)"

definition fmt_2f :: "rat \<Rightarrow> ustr" where
  "fmt_2f v =
     (let n = nat (round_half_even (\<bar>v\<bar> * 100))
      in (if v < 0 then [45] else []) @ group3 (dec (n div 100)) @ [46]
         @ [48 + (n mod 100) div 10, 48 + n mod 10])"

definition fmt_price :: "rat option \<Rightarrow> ustr option \<Rightarrow> ustr \<Rightarrow> ustr" where
  "fmt_price val currency host =
     (case val of
        None \<Rightarrow> []
      | Some v \<Rightarrow>
          let sym = or_str (map_of CURRENCY_SYMBOLS (upper (or_str currency [])))
                      (or_str (map_of CURRENCY_SYMBOLS (host_currency host)) (U ''$''))
          in sym @ fmt_2f v)"

text \<open>The labels of a host name: the pieces between its dots.\<close>

fun split_on :: "'a \<Rightarrow> 'a list \<Rightarrow> 'a list list" where
  "split_on d [] = [[]]"
| "split_on d (x # xs) =
     (if x = d then [] # split_on d xs
      else (case split_on d xs of l # ls \<Rightarrow> (x # l) # ls | [] \<Rightarrow> [[x]]))"

section \<open>Regular expressions with backtracking\<close>

text \<open>
  The patterns of the source are matched as \<open>re\<close> matches them: a matcher returns every
  way to match at the start of the input, best first (greedy repetition, left alternative
  first), each with the remaining input and the groups captured. A repetition does not
  iterate a body that matched the empty string.
\<close>

datatype py_error = AttributeError

datatype rx =
    Chr nat
  | OneOf "nat list"
  | Digit
  | Space
  | Seq rx rx
  | Alt rx rx
  | Opt rx
  | Star rx
  | Plus rx
  | Rep nat nat rx
  | Grp nat rx

type_synonym caps = "(nat \<times> ustr) list"

type_synonym matcher = "ustr \<Rightarrow> caps \<Rightarrow> (ustr \<times> caps) list"

definition is_digit :: "nat \<Rightarrow> bool" where
  \<comment> \<open>\<open>[0-9]\<close>\<close>
  "is_digit c = (48 \<le> c \<and> c \<le> 57)"

definition is_space :: "nat \<Rightarrow> bool" where
  \<comment> \<open>\<open>\s\<close> on \<open>str\<close>, and \<open>str.isspace\<close>: the Unicode white space\<close>
  "is_space c =
     ((9 \<le> c \<and> c \<le> 13) \<or> (28 \<le> c \<and> c \<le> 32) \<or> c = 133 \<or> c = 160 \<or> c = 5760
      \<or> (8192 \<le> c \<and> c \<le> 8202) \<or> c = 8232 \<or> c = 8233 \<or> c = 8239 \<or> c = 8287
      \<or> c = 12288)"

definition one :: "(nat \<Rightarrow> bool) \<Rightarrow> matcher" where
  "one p s c = (case s of [] \<Rightarrow> [] | x # xs \<Rightarrow> if p x then [(xs, c)] else [])"

definition seq :: "matcher \<Rightarrow> matcher \<Rightarrow> matcher" where
  "seq m1 m2 s c = concat (map (\<lambda>(r, c'). m2 r c') (m1 s c))"

fun star :: "nat \<Rightarrow> matcher \<Rightarrow> matcher" where
  "star 0 m s c = [(s, c)]"
| "star (Suc n) m s c =
     concat (map (\<lambda>(r, c'). if length r < length s then star n m r c' else []) (m s c))
     @ [(s, c)]"

fun rep :: "nat \<Rightarrow> nat \<Rightarrow> matcher \<Rightarrow> matcher" where
  "rep lo 0 m s c = (if lo = 0 then [(s, c)] else [])"
| "rep lo (Suc n) m s c =
     concat (map (\<lambda>(r, c'). rep (lo - 1) n m r c') (m s c))
     @ (if lo = 0 then [(s, c)] else [])"

primrec rmatch :: "rx \<Rightarrow> matcher" where
  "rmatch (Chr a) = one (\<lambda>x. x = a)"
| "rmatch (OneOf as) = one (\<lambda>x. x \<in> set as)"
| "rmatch Digit = one is_digit"
| "rmatch Space = one is_space"
| "rmatch (Seq a b) = seq (rmatch a) (rmatch b)"
| "rmatch (Alt a b) = (\<lambda>s c. rmatch a s c @ rmatch b s c)"
| "rmatch (Opt a) = (\<lambda>s c. rmatch a s c @ [(s, c)])"
| "rmatch (Star a) = (\<lambda>s c. star (length s) (rmatch a) s c)"
| "rmatch (Plus a) = seq (rmatch a) (\<lambda>s c. star (length s) (rmatch a) s c)"
| "rmatch (Rep lo hi a) = rep lo hi (rmatch a)"
| "rmatch (Grp k a) =
     (\<lambda>s c. map (\<lambda>(r, c'). (r, (k, take (length s - length r) s) # c')) (rmatch a s c))"

text \<open>\<open>re.search\<close>: the best match at the leftmost position that has one.\<close>

fun search :: "rx \<Rightarrow> ustr \<Rightarrow> caps option" where
  "search re [] = (case rmatch re [] [] of [] \<Rightarrow> None | m # _ \<Rightarrow> Some (snd m))"
| "search re (x # xs) =
     (case rmatch re (x # xs) [] of [] \<Rightarrow> search re xs | m # _ \<Rightarrow> Some (snd m))"

text \<open>\<open>m.group(k)\<close>: \<open>None\<close> for a group that took no part in the match.\<close>

definition match_group :: "caps \<Rightarrow> nat \<Rightarrow> ustr option" where
  "match_group m k = map_of m k"

section \<open>Money parser\<close>

definition frac2 :: rx where
  \<comment> \<open>\<open>\.[0-9]{2}\<close>\<close>
  "frac2 = Seq (Chr 46) (Rep 2 2 Digit)"

definition symbol_rx :: rx where
  \<comment> \<open>the currency symbol: dollar, pound or euro sign, or \<open>CA$\<close>\<close>
  "symbol_rx = Alt (OneOf [36, 163, 8364]) (Seq (Chr 67) (Seq (Chr 65) (Chr 36)))"

definition comma_group :: rx where
  \<comment> \<open>\<open>,[0-9]{3}\<close>\<close>
  "comma_group = Seq (Chr 44) (Rep 3 3 Digit)"

definition grouped_rx :: rx where
  \<comment> \<open>\<open>[0-9]{1,3}(?:,[0-9]{3})*(?:\.[0-9]{2})\<close>\<close>
  "grouped_rx = Seq (Rep 1 3 Digit) (Seq (Star comma_group) frac2)"

definition plain_rx :: rx where
  \<comment> \<open>\<open>[0-9]+(?:\.[0-9]{2})?\<close>\<close>
  "plain_rx = Seq (Plus Digit) (Opt frac2)"

definition MONEY_RE :: rx where
  "MONEY_RE =
     Seq (Opt (Grp 1 symbol_rx)) (Seq (Star Space) (Grp 2 (Alt grouped_rx plain_rx)))"

text \<open>
  \<open>float(s)\<close> on a decimal numeral (digits, optionally a point and digits), the only
  strings that group 2 of \<open>MONEY_RE\<close> can hold; \<open>None\<close> stands for \<open>ValueError\<close>.
\<close>

definition digits_val :: "ustr \<Rightarrow> nat" where
  "digits_val ds = foldl (\<lambda>a d. 10 * a + (d - 48)) 0 ds"

definition py_float :: "ustr \<Rightarrow> rat option" where
  "py_float num =
     (let ip = takeWhile is_digit num; r = dropWhile is_digit num
      in if r = [] then (if ip = [] then None else Some (of_nat (digits_val ip)))
         else if hd r = 46 \<and> list_all is_digit (tl r) \<and> (ip \<noteq> [] \<or> tl r \<noteq> [])
         then Some (of_nat (digits_val ip) + of_nat (digits_val (tl r)) / 10 ^ length (tl r))
         else None)"

definition parse_price_number :: "ustr \<Rightarrow> py_error + rat option" where
  "parse_price_number text' =
     (if text' = [] then Inr None
      else case search MONEY_RE text' of
             None \<Rightarrow> Inr None
           | Some m \<Rightarrow>
               (case match_group m 2 of
                  None \<Rightarrow> Inl AttributeError
                | Some g \<Rightarrow>
                    let num = filter (\<lambda>c. c \<noteq> 44) g
                    in (case py_float num of None \<Rightarrow> Inr None | Some v \<Rightarrow> Inr (Some v))))"

text \<open>
  The money parser in words. The number starts at the first digit of the text. Its
  grouped form is one to three digits, any number of groups of a comma and three digits,
  and a point with two digits; its plain form is the whole run of digits, with a point
  and two digits when they follow. \<open>number_end\<close> is the text left after the number.
\<close>

definition has_frac :: "ustr \<Rightarrow> bool" where
  "has_frac s =
     (case s of p # a # b # _ \<Rightarrow> p = 46 \<and> is_digit a \<and> is_digit b | _ \<Rightarrow> False)"

fun strip_groups :: "ustr \<Rightarrow> ustr" where
  "strip_groups (k # a # b # c # r) =
     (if k = 44 \<and> is_digit a \<and> is_digit b \<and> is_digit c then strip_groups r
      else k # a # b # c # r)"
| "strip_groups s = s"

definition number_end :: "ustr \<Rightarrow> ustr" where
  "number_end s =
     (let ds = takeWhile is_digit s; r = dropWhile is_digit s; g = strip_groups r
      in if length ds \<le> 3 \<and> has_frac g then drop 3 g
         else if has_frac r then drop 3 r
         else r)"

definition number_at :: "ustr \<Rightarrow> ustr" where
  "number_at s = take (length s - length (number_end s)) s"

definition first_price :: "ustr \<Rightarrow> rat option" where
  "first_price t =
     (let d = dropWhile (\<lambda>c. \<not> is_digit c) t
      in if d = [] then None else py_float (filter (\<lambda>c. c \<noteq> 44) (number_at d)))"

section \<open>Documents and collaborators\<close>

text \<open>
  The parsed document is the collaborator of the extractors: \<open>select e sel\<close> lists the
  elements below \<open>e\<close> that match the CSS selector \<open>sel\<close>, in document order
  (\<open>e.select(sel)\<close>); the selectors are keys, their matching is the parser's.
  \<open>find_all('script', type='application/ld+json')\<close> is the query
  \<open>script[type=application/ld+json]\<close>. A fetched page is given by its parsed document.

  The values of \<open>json.loads\<close> are the JSON values. Where the source passes the \<open>name\<close>
  or the \<open>priceCurrency\<close> of a structured-data object to a string operation, a value that
  is not a string is taken as absent.

  Calls into libraries outside a \<open>try\<close> block are taken to return; the exceptions that
  the source catches, and the fetch failure, are values. In the source
  \<open>urlparse(url).hostname\<close>, \<open>urljoin\<close> and the string operations on a \<open>name\<close> or
  \<open>priceCurrency\<close> that is not a string can raise outside any \<open>try\<close>; the theorems
  about whole scrapes speak of the runs in which they return.
\<close>

datatype json =
    JNull
  | JBool bool
  | JNum rat
  | JStr ustr
  | JArr "json list"
  | JObj "(ustr \<times> json) list"

datatype element =
  Element (attrs: "(ustr \<times> ustr) list") (get_text: ustr) (select: "ustr \<Rightarrow> element list")

record env =
  fetch :: "ustr \<Rightarrow> ustr + (ustr \<times> element)"
  hostname :: "ustr \<Rightarrow> ustr option"
  urljoin :: "ustr \<Rightarrow> ustr \<Rightarrow> ustr"
  loads :: "ustr \<Rightarrow> json option"
  to_float :: "ustr \<Rightarrow> rat option"
  py_str :: "json \<Rightarrow> ustr"

text \<open>
  \<open>fetch\<close> is \<open>get_html\<close> on the session: the final URL and the document, or the text
  \<open>type: message\<close> of the exception raised. \<open>hostname u\<close> is \<open>urlparse(u).hostname\<close>,
  \<open>loads\<close> is \<open>json.loads\<close> and \<open>to_float\<close> is \<open>float\<close> on a string (\<open>None\<close> where they
  raise), \<open>py_str\<close> is \<open>str\<close> on a JSON value that is not a string.
\<close>

definition select_one :: "element \<Rightarrow> ustr \<Rightarrow> element option" where
  "select_one e sel = (case select e sel of [] \<Rightarrow> None | x # _ \<Rightarrow> Some x)"

definition attr :: "element \<Rightarrow> ustr \<Rightarrow> ustr option" where
  \<comment> \<open>\<open>el.get(k)\<close>\<close>
  "attr e k = map_of (attrs e) k"

definition obj_get :: "json \<Rightarrow> ustr \<Rightarrow> json option" where
  \<comment> \<open>\<open>obj.get(k)\<close> on a dict\<close>
  "obj_get obj k = (case obj of JObj kv \<Rightarrow> map_of kv k | _ \<Rightarrow> None)"

definition as_str :: "json option \<Rightarrow> ustr option" where
  "as_str v = (case v of Some (JStr s) \<Rightarrow> Some s | _ \<Rightarrow> None)"

definition ebind :: "'e + 'a \<Rightarrow> ('a \<Rightarrow> 'e + 'b) \<Rightarrow> 'e + 'b" where
  \<comment> \<open>sequencing: an exception of the first step is the exception of the whole\<close>
  "ebind m f = (case m of Inl e \<Rightarrow> Inl e | Inr x \<Rightarrow> f x)"

section \<open>Helpers\<close>

function collapse_ws :: "ustr \<Rightarrow> ustr" where
  \<comment> \<open>\<open>re.sub(r'\s+', ' ', s)\<close>\<close>
  "collapse_ws [] = []"
| "collapse_ws (x # xs) =
     (if is_space x then 32 # collapse_ws (dropWhile is_space xs) else x # collapse_ws xs)"
  by pat_completeness auto
termination
  by (relation "measure length") (auto simp: length_dropWhile_le less_Suc_eq_le)

definition strip :: "ustr \<Rightarrow> ustr" where
  "strip s = rev (dropWhile is_space (rev (dropWhile is_space s)))"

definition clean_text :: "ustr \<Rightarrow> ustr" where
  "clean_text s = (if s = [] then [] else strip (collapse_ws s))"

section \<open>Extractors\<close>

definition typed_product :: "json \<Rightarrow> bool" where
  \<comment> \<open>\<open>isinstance(obj, dict) and obj.get('@type') == 'Product'\<close>\<close>
  "typed_product obj =
     (case obj of JObj kv \<Rightarrow> map_of kv (U ''@type'') = Some (JStr (U ''Product'')) | _ \<Rightarrow> False)"

definition candidate_products :: "json \<Rightarrow> json list" where
  "candidate_products obj =
     (if typed_product obj then [obj] else [])
     @ (case obj of
          JObj kv \<Rightarrow>
            (case map_of kv (U ''@graph'') of
               Some (JArr gs) \<Rightarrow> filter typed_product gs
             | _ \<Rightarrow> [])
        | _ \<Rightarrow> [])"

definition find_jsonld_products :: "env \<Rightarrow> element \<Rightarrow> json list" where
  "find_jsonld_products ev soup =
     concat (map (\<lambda>tag.
        case loads ev (get_text tag) of
          None \<Rightarrow> []
        | Some data \<Rightarrow>
            (case data of
               JObj kv \<Rightarrow> candidate_products data
             | JArr candidates \<Rightarrow> concat (map candidate_products candidates)
             | _ \<Rightarrow> []))
       (select soup (U ''script[type=application/ld+json]'')))"

definition float_json :: "env \<Rightarrow> json option \<Rightarrow> rat option" where
  \<comment> \<open>\<open>float(price)\<close>; \<open>None\<close> where it raises\<close>
  "float_json ev price =
     (case price of
        Some (JNum r) \<Rightarrow> Some r
      | Some (JStr s) \<Rightarrow> to_float ev s
      | Some (JBool b) \<Rightarrow> Some (if b then 1 else 0)
      | _ \<Rightarrow> None)"

definition str_json :: "env \<Rightarrow> json option \<Rightarrow> ustr" where
  \<comment> \<open>\<open>str(price)\<close>\<close>
  "str_json ev price =
     (case price of None \<Rightarrow> U ''None'' | Some (JStr s) \<Rightarrow> s | Some j \<Rightarrow> py_str ev j)"

fun price_from_offers :: "env \<Rightarrow> json \<Rightarrow> py_error + (rat option \<times> ustr option)"
  and price_from_offer_list :: "env \<Rightarrow> json list \<Rightarrow> py_error + (rat option \<times> ustr option)"
where
  "price_from_offers ev (JObj kv) =
     (let price = map_of kv (U ''price'');
          currency = as_str (map_of kv (U ''priceCurrency''))
      in case float_json ev price of
           Some v \<Rightarrow> Inr (Some v, currency)
         | None \<Rightarrow> ebind (parse_price_number (str_json ev price)) (\<lambda>v. Inr (v, currency)))"
| "price_from_offers ev (JArr offers) = price_from_offer_list ev offers"
| "price_from_offers ev JNull = Inr (None, None)"
| "price_from_offers ev (JBool b) = Inr (None, None)"
| "price_from_offers ev (JNum r) = Inr (None, None)"
| "price_from_offers ev (JStr s) = Inr (None, None)"
| "price_from_offer_list ev [] = Inr (None, None)"
| "price_from_offer_list ev (off # offers) =
     ebind (price_from_offers ev off)
       (\<lambda>(v, c). if v \<noteq> None then Inr (v, c) else price_from_offer_list ev offers)"

fun first_title :: "element \<Rightarrow> ustr list \<Rightarrow> ustr option" where
  "first_title soup [] = None"
| "first_title soup (sel # sels) =
     (case select_one soup sel of
        Some el \<Rightarrow>
          (let t = clean_text (get_text el)
           in if t \<noteq> [] then Some t else first_title soup sels)
      | None \<Rightarrow> first_title soup sels)"

definition extract_title :: "element \<Rightarrow> ustr" where
  \<open>extract_title soup =
     (case first_title soup
             [U ''h1.page-title .base'', U ''span[data-ui-id="page-title-wrapper"]'',
              U ''h1.product'', U ''h1''] of
        Some t \<Rightarrow> t
      | None \<Rightarrow>
          (case select_one soup (U ''meta[property="og:title"]'') of
             Some og \<Rightarrow>
               (case attr og (U ''content'') of
                  Some c \<Rightarrow> if c \<noteq> [] then clean_text c else []
                | None \<Rightarrow> [])
           | None \<Rightarrow> []))\<close>

definition truthy_attr :: "element option \<Rightarrow> ustr \<Rightarrow> ustr option" where
  \<comment> \<open>\<open>el and el.get(k)\<close>: the attribute when the element exists and the value is not empty\<close>
  "truthy_attr el k =
     (case el of
        None \<Rightarrow> None
      | Some e \<Rightarrow> (case attr e k of Some v \<Rightarrow> if v \<noteq> [] then Some v else None | None \<Rightarrow> None))"

definition extract_canonical_or_og_url :: "element \<Rightarrow> ustr \<Rightarrow> ustr" where
  \<open>extract_canonical_or_og_url soup fallback =
     (case truthy_attr (select_one soup (U ''link[rel="canonical"]'')) (U ''href'') of
        Some h \<Rightarrow> h
      | None \<Rightarrow>
          (case truthy_attr (select_one soup (U ''meta[property="og:url"]'')) (U ''content'') of
             Some c \<Rightarrow> c
           | None \<Rightarrow> fallback))\<close>

fun price_in_elements :: "element list \<Rightarrow> py_error + rat option" where
  "price_in_elements [] = Inr None"
| "price_in_elements (e # es) =
     ebind (parse_price_number (clean_text (get_text e)))
       (\<lambda>v. if v \<noteq> None then Inr v else price_in_elements es)"

fun price_by_selectors :: "element \<Rightarrow> ustr list \<Rightarrow> py_error + (rat option \<times> ustr \<times> ustr)" where
  "price_by_selectors soup [] = Inr (None, [], [])"
| "price_by_selectors soup (sel # sels) =
     ebind (price_in_elements (select soup sel))
       (\<lambda>v. if v \<noteq> None then Inr (v, [], sel) else price_by_selectors soup sels)"

definition PRICE_SELECTORS :: "ustr list" where
  \<open>PRICE_SELECTORS =
     [U ''span.price-final_price [data-price-amount]'',
      U ''span.price-final_price span.price'',
      U ''div.price-box [data-price-amount]'',
      U ''div.price-box span.price'',
      U ''span[id^="product-price-"] [data-price-amount]'',
      U ''span[id^="product-price-"] span.price'',
      U ''span.price'',
      U ''[class*="price"]'', U ''[id*="price"]'']\<close>

definition attr_price :: "env \<Rightarrow> element option \<Rightarrow> rat option" where
  \<comment> \<open>the \<open>data-price-amount\<close> of the element as a number; absent when \<open>float\<close> raises\<close>
  "attr_price ev el =
     (case truthy_attr el (U ''data-price-amount'') of
        Some a \<Rightarrow> to_float ev a
      | None \<Rightarrow> None)"

definition extract_price :: "env \<Rightarrow> element \<Rightarrow> py_error + (rat option \<times> ustr \<times> ustr)" where
  "extract_price ev soup =
     (case attr_price ev (select_one soup (U ''[data-price-amount]'')) of
        Some v \<Rightarrow> Inr (Some v, [], U ''data-price-amount'')
      | None \<Rightarrow> price_by_selectors soup PRICE_SELECTORS)"

fun image_by_selectors :: "element \<Rightarrow> ustr list \<Rightarrow> ustr" where
  "image_by_selectors container [] = []"
| "image_by_selectors container (sel # sels) =
     (case select_one container sel of
        None \<Rightarrow> image_by_selectors container sels
      | Some el \<Rightarrow> or_str (attr el (U ''data-src'')) (or_str (attr el (U ''src'')) []))"

definition extract_image_url :: "element \<Rightarrow> ustr" where
  "extract_image_url container =
     image_by_selectors container [U ''img[data-src]'', U ''img[srcset]'', U ''img[src]'']"

definition is_product_page :: "env \<Rightarrow> element \<Rightarrow> bool" where
  "is_product_page ev soup =
     (select_one soup (U ''h1.page-title, h1.product'') \<noteq> None
      \<or> find_jsonld_products ev soup \<noteq> [])"

definition is_category_page :: "element \<Rightarrow> bool" where
  "is_category_page soup =
     (select_one soup (U ''ul.product-listing li.item'') \<noteq> None
      \<or> select_one soup (U ''ol.products li.product-item'') \<noteq> None
      \<or> select_one soup (U ''div.product-item-info, div.product-card, li.product'') \<noteq> None)"

definition find_next_page_url :: "env \<Rightarrow> element \<Rightarrow> ustr \<Rightarrow> ustr option" where
  \<open>find_next_page_url ev soup base_url =
     (case truthy_attr (select_one soup (U ''li.pages-item-next a, a.action.next, a[rel="next"]''))
             (U ''href'') of
        Some h \<Rightarrow> Some (urljoin ev base_url h)
      | None \<Rightarrow> None)\<close>

section \<open>Scrapers\<close>

record item =
  url :: ustr
  site :: ustr
  title :: ustr
  price_value :: "rat option"
  price_currency :: "ustr option"
  price_text :: ustr
  discounted_value :: "rat option"
  discounted_formatted :: ustr
  original_formatted :: ustr
  source :: ustr
  image_url :: ustr

record rules =
  percent_off :: rat
  absolute_off :: rat

definition get_html_safe :: "env \<Rightarrow> ustr \<Rightarrow> ustr + (ustr \<times> element)" where
  \<comment> \<open>\<open>Inl msg\<close> is the pair \<open>(None, msg)\<close>; the delay before the fetch has no result\<close>
  "get_html_safe ev u = (case fetch ev u of Inl msg \<Rightarrow> Inl msg | Inr page \<Rightarrow> Inr page)"

definition error_item :: "env \<Rightarrow> ustr \<Rightarrow> ustr \<Rightarrow> item" where
  "error_item ev u msg =
     \<lparr>url = u, site = or_str (hostname ev u) [], title = [],
      price_value = None, price_currency = None, price_text = U ''fetch_failed: '' @ msg,
      discounted_value = None, discounted_formatted = [], original_formatted = [],
      source = U ''error'', image_url = []\<rparr>"

definition jsonld_fields ::
  "env \<Rightarrow> json list \<Rightarrow> py_error + (ustr \<times> rat option \<times> ustr option \<times> ustr)" where
  \<comment> \<open>title, price, currency and source after the structured-data stage\<close>
  "jsonld_fields ev jl =
     (case jl of
        [] \<Rightarrow> Inr ([], None, None, U ''product'')
      | obj # _ \<Rightarrow>
          (let t = clean_text (or_str (as_str (obj_get obj (U ''name''))) [])
           in ebind (case obj_get obj (U ''offers'') of
                       None \<Rightarrow> Inr (None, None)
                     | Some offers \<Rightarrow> price_from_offers ev offers)
                (\<lambda>(pv, cur).
                   if pv \<noteq> None then Inr (t, pv, cur, U ''jsonld'')
                   else Inr (t, None, None, U ''product''))))"

definition scrape_product :: "env \<Rightarrow> ustr \<Rightarrow> element \<Rightarrow> rules \<Rightarrow> py_error + item list" where
  "scrape_product ev final_url soup rls =
     (let host = or_str (hostname ev final_url) [];
          final_url' = extract_canonical_or_og_url soup final_url
      in ebind (jsonld_fields ev (find_jsonld_products ev soup))
           (\<lambda>(t, price_val, currency, src).
              let t = (if t = [] then extract_title soup else t)
              in ebind (if price_val = None
                        then ebind (extract_price ev soup)
                               (\<lambda>(pv, cur, sel).
                                  Inr (pv, (if cur \<noteq> [] then Some cur else currency),
                                       (if pv \<noteq> None then sel else src)))
                        else Inr (price_val, currency, src))
                   (\<lambda>(price_val, currency, src).
                      let gal = select_one soup
                                  (U ''.gallery-placeholder, .product.media, .fotorama, .product-image'');
                          img = extract_image_url (case gal of Some g \<Rightarrow> g | None \<Rightarrow> soup);
                          final_price = apply_rules price_val (percent_off rls) (absolute_off rls)
                      in Inr [\<lparr>url = final_url', site = host, title = t,
                               price_value = price_val,
                               price_currency = Some (or_str currency (host_currency host)),
                               price_text = (if price_val \<noteq> None then []
                                             else U ''price_not_found_or_hidden''),
                               discounted_value = final_price,
                               discounted_formatted =
                                 (if final_price \<noteq> None then fmt_price final_price currency host
                                  else []),
                               original_formatted = fmt_price price_val currency host,
                               source = src, image_url = img\<rparr>])))"

definition card_item ::
  "env \<Rightarrow> ustr \<Rightarrow> ustr \<Rightarrow> rules \<Rightarrow> element \<Rightarrow> element \<Rightarrow> py_error + item" where
  \<open>card_item ev final_url host rls card' a =
     (let t = clean_text (get_text a);
          href = or_str (attr a (U ''href'')) [];
          prod_url = urljoin ev final_url href;
          image = extract_image_url card';
          price_val = attr_price ev (select_one card' (U ''[data-price-amount]''))
      in ebind (if price_val = None
                then (let pt_el = select_one card'
                                    (U ''.price, .price-final_price .price, [class*="price"]'');
                          ptext = (case pt_el of Some p \<Rightarrow> clean_text (get_text p) | None \<Rightarrow> [])
                      in ebind (parse_price_number ptext) (\<lambda>v. Inr (v, ptext)))
                else Inr (price_val, []))
           (\<lambda>(price_val, ptext).
              let final_price = apply_rules price_val (percent_off rls) (absolute_off rls)
              in Inr \<lparr>url = prod_url, site = host, title = t,
                      price_value = price_val,
                      price_currency = Some (host_currency host),
                      price_text = (if price_val = None then ptext else []),
                      discounted_value = final_price,
                      discounted_formatted =
                        (if final_price \<noteq> None then fmt_price final_price None host else []),
                      original_formatted = fmt_price price_val None host,
                      source = U ''category-card'', image_url = image\<rparr>))\<close>

fun scrape_cards ::
  "env \<Rightarrow> ustr \<Rightarrow> ustr \<Rightarrow> rules \<Rightarrow> element list \<Rightarrow> py_error + item list" where
  "scrape_cards ev final_url host rls [] = Inr []"
| "scrape_cards ev final_url host rls (card' # cards) =
     (case select_one card' (U ''a[href]'') of
        None \<Rightarrow> scrape_cards ev final_url host rls cards
      | Some a \<Rightarrow>
          ebind (card_item ev final_url host rls card' a)
            (\<lambda>it. ebind (scrape_cards ev final_url host rls cards) (\<lambda>out. Inr (it # out))))"

definition scrape_category_page ::
  "env \<Rightarrow> ustr \<Rightarrow> element \<Rightarrow> rules \<Rightarrow> py_error + item list" where
  "scrape_category_page ev final_url soup rls =
     (let host = or_str (hostname ev final_url) [];
          cards = select soup (U ''ul.product-listing li.item'');
          cards = (if cards = []
                   then select soup
                     (U ''ol.products li.product-item, div.product-item-info, div.product-card, li.product'')
                   else cards)
      in scrape_cards ev final_url host rls cards)"

text \<open>
  The pagination loop. \<open>fetched\<close> is not a variable of the source: it records each
  fetch of the loop, the URL requested and the URL reached (absent for a failed fetch).
\<close>

record walk_state =
  items :: "item list"
  seen :: "ustr set"
  next_url :: ustr
  pages :: int
  fetched :: "(ustr \<times> ustr option) list"

function walk :: "env \<Rightarrow> rules \<Rightarrow> int \<Rightarrow> walk_state \<Rightarrow> py_error + walk_state" where
  "walk ev rls max_pages st =
     (if next_url st \<noteq> [] \<and> pages st < max_pages then
        (case get_html_safe ev (next_url st) of
           Inl msg \<Rightarrow>
             Inr (st\<lparr>pages := pages st + 1,
                     items := items st @ [error_item ev (next_url st) msg],
                     fetched := fetched st @ [(next_url st, None)]\<rparr>)
         | Inr (final_url, html) \<Rightarrow>
             (case scrape_category_page ev final_url html rls of
                Inl e \<Rightarrow> Inl e
              | Inr its \<Rightarrow>
                  (let st' = st\<lparr>pages := pages st + 1,
                                items := items st @ its,
                                seen := insert final_url (seen st),
                                fetched := fetched st @ [(next_url st, Some final_url)]\<rparr>
                   in case find_next_page_url ev html final_url of
                        None \<Rightarrow> Inr st'
                      | Some nxt \<Rightarrow>
                          if nxt = [] \<or> nxt \<in> seen st' then Inr st'
                          else walk ev rls max_pages (st'\<lparr>next_url := nxt\<rparr>))))
      else Inr st)"
  by pat_completeness auto
termination
  by (relation "measure (\<lambda>(ev, rls, max_pages, st). nat (max_pages - pages st))") auto

definition scrape_category_all_pages ::
  "env \<Rightarrow> ustr \<Rightarrow> rules \<Rightarrow> int \<Rightarrow> py_error + item list" where
  "scrape_category_all_pages ev start_url rls max_pages =
     ebind (walk ev rls max_pages
              \<lparr>items = [], seen = {}, next_url = start_url, pages = 0, fetched = []\<rparr>)
       (\<lambda>st. Inr (items st))"

definition scrape_url ::
  "env \<Rightarrow> ustr \<Rightarrow> rules \<Rightarrow> bool \<Rightarrow> int \<Rightarrow> py_error + item list" where
  "scrape_url ev u rls crawl_pagination max_pages =
     (case get_html_safe ev u of
        Inl msg \<Rightarrow> Inr [error_item ev u msg]
      | Inr (final_url, soup) \<Rightarrow>
          if is_product_page ev soup then scrape_product ev final_url soup rls
          else if is_category_page soup then
            (if crawl_pagination
             then scrape_category_all_pages ev final_url rls max_pages
             else scrape_category_page ev final_url soup rls)
          else scrape_product ev final_url soup rls)"

text \<open>The loop of \<open>api_scrape\<close> over the input URLs.\<close>

fun scrape_all :: "env \<Rightarrow> rules \<Rightarrow> bool \<Rightarrow> int \<Rightarrow> ustr list \<Rightarrow> py_error + item list" where
  "scrape_all ev rls crawl_pagination max_pages [] = Inr []"
| "scrape_all ev rls crawl_pagination max_pages (u # urls) =
     ebind (scrape_url ev u rls crawl_pagination max_pages)
       (\<lambda>its. ebind (scrape_all ev rls crawl_pagination max_pages urls)
                 (\<lambda>rest. Inr (its @ rest)))"

section \<open>Fetch traces and example webs\<close>

text \<open>
  A trace of fetches requests fresh URLs when no request is for a URL that an earlier
  fetch of the trace resolved to (\<open>S\<close> holds the URLs resolved so far).
\<close>

fun fresh_requests :: "(ustr \<times> ustr option) list \<Rightarrow> ustr set \<Rightarrow> bool" where
  "fresh_requests [] S = True"
| "fresh_requests ((u, r) # f) S =
     (u \<notin> S \<and> fresh_requests f (case r of Some x \<Rightarrow> insert x S | None \<Rightarrow> S))"

definition start_state :: "ustr \<Rightarrow> walk_state" where
  \<comment> \<open>the variables of \<open>scrape_category_all_pages\<close> before its loop\<close>
  "start_state start_url =
     \<lparr>items = [], seen = {}, next_url = start_url, pages = 0, fetched = []\<rparr>"

text \<open>
  Example documents and webs: an element with no attributes, text or descendants; a
  container whose only image has a \<open>srcset\<close> and nothing else, and one whose image has a
  \<open>srcset\<close> and a \<open>src\<close>; a listing page with one card, priced \<open>$5.00\<close>, whose next link is \<open>/b\<close>, on a web
  where every URL redirects to \<open>/a\<close>, that page; a page with a Product inside a \<open>@graph\<close>; listing
  pages with a given next link, on a web without redirects where \<open>/a\<close> links to \<open>/b\<close>
  and \<open>/b\<close> back to \<open>/a\<close>.
\<close>

definition no_rules :: rules where
  "no_rules = \<lparr>percent_off = 0, absolute_off = 0\<rparr>"

definition img_el :: "(ustr \<times> ustr) list \<Rightarrow> element" where
  "img_el as = Element as [] (\<lambda>sel. [])"

definition srcset_only :: element where
  "srcset_only =
     Element [] []
       (\<lambda>sel. if sel = U ''img[srcset]''
              then [img_el [(U ''srcset'', U ''a.jpg 1x, b.jpg 2x'')]] else [])"

definition srcset_and_src :: element where
  "srcset_and_src =
     Element [] []
       (\<lambda>sel. if sel = U ''img[srcset]'' \<or> sel = U ''img[src]''
              then [img_el [(U ''srcset'', U ''a.jpg 1x''), (U ''src'', U ''b.jpg'')]]
              else [])"

definition loop_anchor :: element where
  "loop_anchor = Element [(U ''href'', U ''/case'')] (U ''Case'') (\<lambda>sel. [])"

definition loop_card :: element where
  \<open>loop_card =
     Element [] (U ''Case $5.00'')
       (\<lambda>sel. if sel = U ''a[href]'' then [loop_anchor]
              else if sel = U ''.price, .price-final_price .price, [class*="price"]''
              then [Element [] (U ''$5.00'') (\<lambda>sel. [])]
              else if sel = U ''img[data-src]'' then [img_el [(U ''data-src'', U ''/case.jpg'')]]
              else [])\<close>

definition loop_page :: element where
  \<open>loop_page =
     Element [] []
       (\<lambda>sel. if sel = U ''li.pages-item-next a, a.action.next, a[rel="next"]''
              then [Element [(U ''href'', U ''/b'')] (U ''Next'') (\<lambda>sel. [])]
              else if sel = U ''ul.product-listing li.item'' then [loop_card]
              else [])\<close>

definition redirect_env :: env where
  "redirect_env =
     \<lparr>fetch = (\<lambda>u. Inr (U ''/a'', loop_page)),
      hostname = (\<lambda>u. None),
      urljoin = (\<lambda>b h. h),
      loads = (\<lambda>s. None),
      to_float = (\<lambda>s. None),
      py_str = (\<lambda>j. [])\<rparr>"

definition graph_product_page :: element where
  "graph_product_page =
     Element [] []
       (\<lambda>sel. if sel = U ''script[type=application/ld+json]''
              then [Element [] (U ''{graph}'') (\<lambda>sel. [])] else [])"

definition graph_env :: env where
  "graph_env =
     \<lparr>fetch = (\<lambda>u. Inr (u, graph_product_page)),
      hostname = (\<lambda>u. Some (U ''shop.example.com'')),
      urljoin = (\<lambda>b h. h),
      loads = (\<lambda>s. if s = U ''{graph}''
                    then Some (JObj [(U ''@context'', JStr (U ''https://schema.org'')),
                                     (U ''@graph'',
                                      JArr [JObj [(U ''@type'', JStr (U ''WebSite''))],
                                            JObj [(U ''@type'', JStr (U ''Product'')),
                                                  (U ''name'', JStr (U ''Phone''))]])])
                    else None),
      to_float = (\<lambda>s. None),
      py_str = (\<lambda>j. [])\<rparr>"

definition next_page :: "ustr \<Rightarrow> element" where
  \<open>next_page nxt =
     Element [] []
       (\<lambda>sel. if sel = U ''li.pages-item-next a, a.action.next, a[rel="next"]''
              then [Element [(U ''href'', nxt)] (U ''Next'') (\<lambda>sel. [])]
              else if sel = U ''ul.product-listing li.item'' then [loop_card]
              else [])\<close>

definition cycle_env :: env where
  "cycle_env =
     \<lparr>fetch = (\<lambda>u. if u = U ''/a'' then Inr (U ''/a'', next_page (U ''/b''))
                    else if u = U ''/b'' then Inr (U ''/b'', next_page (U ''/a''))
                    else Inl (U ''HTTPError: 404 Client Error'')),
      hostname = (\<lambda>u. None),
      urljoin = (\<lambda>b h. h),
      loads = (\<lambda>s. None),
      to_float = (\<lambda>s. None),
      py_str = (\<lambda>j. [])\<rparr>"

section \<open>Properties of the price rule engine\<close>

lemma round_half_even_int: "round_half_even (of_int n) = n"
  by (simp add: round_half_even_def)

lemma round_half_even_low:
  assumes "of_int n \<le> q" and "q < of_int n + 1 / 2"
  shows "round_half_even q = n"
proof -
  have "\<lfloor>q\<rfloor> = n" using assms by linarith
  then show ?thesis using assms by (simp add: round_half_even_def Let_def)
qed

lemma round_half_even_high:
  assumes "of_int n + 1 / 2 < q" and "q < of_int n + 1"
  shows "round_half_even q = n + 1"
proof -
  have "\<lfloor>q\<rfloor> = n" using assms by linarith
  then show ?thesis using assms by (simp add: round_half_even_def Let_def)
qed

lemma round2_cents: "round2 (of_int n / 100 + eps) = of_int n / 100"
proof -
  have "round_half_even (of_int n + 100 * eps) = n"
    by (rule round_half_even_low) (simp_all add: eps_def)
  then show ?thesis by (simp add: round2_def algebra_simps)
qed

text \<open>
  C2. An absent base gives an absent result. For a present base and price rules, whose
  \<open>percentOff\<close> and \<open>absoluteOff\<close> are not negative, the base is multiplied by
  \<open>1 - percentOff/100\<close>, then \<open>absoluteOff\<close> is subtracted, then the sum of that and
  \<open>1e-9\<close> is rounded to two decimal places; \<open>apply_rules(100, 10, 5) = 85\<close>; the result
  is not floored at zero: \<open>apply_rules(1, 0, 5) = -4\<close>.
\<close>

theorem apply_rules_formula:
  "apply_rules None pct amt = None \<and>
   (0 \<le> pct \<longrightarrow> 0 \<le> amt \<longrightarrow>
      apply_rules (Some x) pct amt =
        Some (round2 (x * (1 - pct / 100) - amt + eps))) \<and>
   apply_rules (Some 100) 10 5 = Some 85 \<and>
   apply_rules (Some 1) 0 5 = Some (- 4)"
proof -
  have a: "apply_rules (Some 100) 10 5 = Some 85"
    using round2_cents [of 8500] by (simp add: apply_rules_def)
  have b: "apply_rules (Some 1) 0 5 = Some (- 4)"
    using round2_cents [of "- 400"] by (simp add: apply_rules_def)
  show ?thesis using a b by (auto simp: apply_rules_def)
qed

theorem apply_rules_formula_witness:
  "(0::rat) \<le> 10 \<and> (0::rat) \<le> 5 \<and>
   apply_rules (Some 100) 10 5 = Some (round2 (100 * (1 - 10 / 100) - 5 + eps))"
  using apply_rules_formula [of 10 5 100] by simp

lemma round_half_even_tie:
  "round_half_even (of_int n + 1 / 2) = (if even n then n else n + 1)"
proof -
  have "\<lfloor>(of_int n + 1 / 2 :: rat)\<rfloor> = n" by linarith
  then show ?thesis by (simp add: round_half_even_def Let_def)
qed

text \<open>
  C6 as stated fails at an exact half-cent tie: \<open>round(0.125, 2) = 0.12\<close> (half to even),
  while the bias of \<open>1e-9\<close> lifts \<open>0.125\<close> above the tie and gives \<open>0.13\<close>.
\<close>

theorem apply_rules_zero_counterexample:
  "apply_rules (Some (1 / 8)) 0 0 \<noteq> Some (round2 (1 / 8))"
proof -
  have "round_half_even (of_int 12 + 1 / 2) = 12"
    by (simp only: round_half_even_tie) simp
  then have a: "round2 (1 / 8) = 12 / 100" by (simp add: round2_def)
  have "round_half_even ((1 / 8 + eps) * 100) = 12 + 1"
    by (rule round_half_even_high) (simp_all add: eps_def)
  then have b: "round2 (1 / 8 + eps) = 13 / 100" by (simp add: round2_def)
  show ?thesis by (simp add: apply_rules_def a b)
qed

text \<open>
  C6 (as amended). With no discount configured the result is \<open>round(x + 1e-9, 2)\<close>, for
  every \<open>x\<close>. For every \<open>x\<close> that is a whole number of cents this is \<open>x\<close> itself, which is
  also \<open>round(x, 2)\<close>.
\<close>

theorem apply_rules_zero:
  "apply_rules (Some x) 0 0 = Some (round2 (x + eps)) \<and>
   apply_rules (Some (of_int n / 100)) 0 0 = Some (of_int n / 100) \<and>
   round2 (of_int n / 100) = of_int n / 100"
proof -
  have a: "apply_rules (Some y) 0 0 = Some (round2 (y + eps))" for y
    by (simp add: apply_rules_def)
  have b: "round2 (of_int n / 100) = of_int n / 100"
    using round_half_even_int [of n] by (simp add: round2_def)
  show ?thesis using a b round2_cents [of n] by simp
qed

theorem apply_rules_zero_witness:
  "apply_rules (Some (1999 / 100)) 0 0 = Some (1999 / 100) \<and>
   round2 (1999 / 100) = 1999 / 100"
  using apply_rules_zero [of 0 1999] by simp

text \<open>
  C10. For a present base price and discount parameters that are both zero or negative,
  neither adjustment is applied: the result is \<open>round(x + 1e-9, 2)\<close>.
\<close>

theorem apply_rules_nonpositive_ignored:
  "pct \<le> 0 \<Longrightarrow> amt \<le> 0 \<Longrightarrow>
   apply_rules (Some x) pct amt = Some (round2 (x + eps))"
  by (simp add: apply_rules_def)

theorem apply_rules_nonpositive_ignored_witness:
  "(- 10 :: rat) \<le> 0 \<and> (- 5 :: rat) \<le> 0 \<and>
   apply_rules (Some 100) (- 10) (- 5) = Some (round2 (100 + eps))"
  using apply_rules_nonpositive_ignored [of "- 10" "- 5" 100] by simp

section \<open>Properties of currency formatting\<close>

lemma split_on_nonempty: "split_on d xs \<noteq> []"
  by (induction xs) (auto split: list.splits)

lemma split_on_append: "split_on d (a @ d # b) = split_on d a @ split_on d b"
proof (induction a)
  case Nil
  show ?case by simp
next
  case (Cons x a)
  obtain l ls where "split_on d a = l # ls"
    using split_on_nonempty [of d a] by (cases "split_on d a") auto
  with Cons show ?case by simp
qed

lemma split_on_head:
  "split_on d xs = l # ls \<Longrightarrow> (ls = [] \<and> xs = l) \<or> (\<exists>b. xs = l @ d # b \<and> ls = split_on d b)"
proof (induction xs arbitrary: l ls)
  case Nil
  then show ?case by simp
next
  case (Cons x xs)
  show ?case
  proof (cases "x = d")
    case True
    with Cons.prems show ?thesis by auto
  next
    case False
    obtain l0 ls0 where s: "split_on d xs = l0 # ls0"
      using split_on_nonempty [of d xs] by (cases "split_on d xs") auto
    with Cons.prems False have e: "l = x # l0" "ls = ls0" by auto
    from Cons.IH [OF s] show ?thesis using e by auto
  qed
qed

lemma split_on_member:
  "split_on d h = ls \<Longrightarrow> l \<in> set ls \<Longrightarrow> 2 \<le> length ls \<Longrightarrow>
   prefix (l @ [d]) h \<or> suffix (d # l) h \<or> sublist (d # l @ [d]) h"
proof (induction ls arbitrary: h)
  case Nil
  then show ?case by simp
next
  case (Cons l0 ls')
  from split_on_head [OF Cons.prems(1)] Cons.prems(3)
  obtain b where h: "h = l0 @ d # b" and ls': "ls' = split_on d b" by auto
  show ?case
  proof (cases "l = l0")
    case True
    then show ?thesis by (simp add: h)
  next
    case False
    with Cons.prems(2) have mem: "l \<in> set ls'" by simp
    show ?thesis
    proof (cases "2 \<le> length ls'")
      case True
      from Cons.IH [OF ls' [symmetric] mem True]
      consider "prefix (l @ [d]) b" | "suffix (d # l) b" | "sublist (d # l @ [d]) b" by blast
      then show ?thesis
      proof cases
        case 1
        then obtain r where "b = (l @ [d]) @ r" by (auto simp: prefix_def)
        then have "h = l0 @ (d # l @ [d]) @ r" by (simp add: h)
        then have "sublist (d # l @ [d]) h" unfolding sublist_def by blast
        then show ?thesis by blast
      next
        case 2
        then obtain r where "b = r @ d # l" by (auto simp: suffix_def)
        then have "h = (l0 @ d # r) @ d # l" by (simp add: h)
        then have "suffix (d # l) h" unfolding suffix_def by blast
        then show ?thesis by blast
      next
        case 3
        then obtain p r where "b = p @ (d # l @ [d]) @ r" by (auto simp: sublist_def)
        then have "h = (l0 @ d # p) @ (d # l @ [d]) @ r" by (simp add: h)
        then have "sublist (d # l @ [d]) h" unfolding sublist_def by blast
        then show ?thesis by blast
      qed
    next
      case False
      with mem obtain l1 where one: "ls' = [l1]" "l1 = l"
        by (cases ls') (auto simp: Suc_le_eq)
      have "split_on d b = [l]" using one ls' by simp
      from split_on_head [OF this] have "b = l"
        using split_on_nonempty [of d] by (metis)
      then have "suffix (d # l) h" by (simp add: h suffix_def)
      then show ?thesis by blast
    qed
  qed
qed

lemma ca_labels:
  "suffix (U ''.ca'') h \<or> prefix (U ''ca.'') h \<or> sublist (U ''.ca.'') h
   \<longleftrightarrow> 2 \<le> length (split_on 46 h) \<and> U ''ca'' \<in> set (split_on 46 h)"
proof
  have ca: "split_on 46 (U ''ca'') = [U ''ca'']" by (simp add: U_def)
  assume "suffix (U ''.ca'') h \<or> prefix (U ''ca.'') h \<or> sublist (U ''.ca.'') h"
  then consider a where "h = a @ 46 # U ''ca''" | b where "h = U ''ca'' @ 46 # b"
    | a b where "h = a @ 46 # (U ''ca'' @ 46 # b)"
    by (auto simp: suffix_def prefix_def sublist_def U_def)
  then show "2 \<le> length (split_on 46 h) \<and> U ''ca'' \<in> set (split_on 46 h)"
  proof cases
    case 1
    then show ?thesis
      using split_on_nonempty [of 46 a]
      by (cases "split_on 46 a") (simp_all add: split_on_append ca)
  next
    case 2
    then show ?thesis
      using split_on_nonempty [of 46 b]
      by (cases "split_on 46 b") (simp_all add: split_on_append ca)
  next
    case 3
    then show ?thesis
      using split_on_nonempty [of 46 a]
      by (cases "split_on 46 a") (simp_all add: split_on_append ca)
  qed
next
  assume "2 \<le> length (split_on 46 h) \<and> U ''ca'' \<in> set (split_on 46 h)"
  then have "prefix (U ''ca'' @ [46]) h \<or> suffix (46 # U ''ca'') h \<or> sublist (46 # U ''ca'' @ [46]) h"
    using split_on_member [of 46 h "split_on 46 h" "U ''ca''"] by blast
  then show "suffix (U ''.ca'') h \<or> prefix (U ''ca.'') h \<or> sublist (U ''.ca.'') h"
    by (auto simp: U_def)
qed

lemma upper_no_lowercase: "c \<in> set (upper s) \<Longrightarrow> \<not> (97 \<le> c \<and> c \<le> 122)"
  by (auto simp: upper_def split: if_splits)

lemma upper_not_lower_keys: "upper s \<noteq> U ''usd''" "upper s \<noteq> U ''cad''"
  using upper_no_lowercase [of 117 s] upper_no_lowercase [of 99 s] by (auto simp: U_def)

text \<open>
  C8. An absent value formats to the empty string. Otherwise the symbol is that of the
  explicit currency code, compared case-insensitively (\<open>USD\<close> gives \<open>$\<close>, \<open>CAD\<close>
  gives \<open>CA$\<close>); else it is inferred from the lower-cased host name: \<open>CA$\<close> when the
  host has at least two labels one of which is \<open>ca\<close> (the \<open>.ca\<close> top-level domain or a
  \<open>ca.\<close> subdomain), else \<open>$\<close>. The symbol is followed by the formatted number.
\<close>

theorem fmt_price_symbol:
  "fmt_price None currency host = [] \<and>
   fmt_price (Some v) currency host =
     (let code = upper (case currency of None \<Rightarrow> [] | Some c \<Rightarrow> c);
          labels = split_on 46 (lower host)
      in if code = U ''USD'' then U ''$''
         else if code = U ''CAD'' then U ''CA$''
         else if 2 \<le> length labels \<and> U ''ca'' \<in> set labels then U ''CA$''
         else U ''$'') @ fmt_2f v"
proof -
  have c: "or_str currency [] = (case currency of None \<Rightarrow> [] | Some c \<Rightarrow> c)"
    by (simp add: or_str_def split: option.splits)
  have k: "map_of CURRENCY_SYMBOLS (upper s) =
             (if upper s = U ''USD'' then Some (U ''$'')
              else if upper s = U ''CAD'' then Some (U ''CA$'') else None)" for s
    using upper_not_lower_keys [of s] by (simp add: CURRENCY_SYMBOLS_def)
  have h: "or_str (map_of CURRENCY_SYMBOLS (host_currency host)) (U ''$'') =
             (if 2 \<le> length (split_on 46 (lower host)) \<and> U ''ca'' \<in> set (split_on 46 (lower host))
              then U ''CA$'' else U ''$'')"
    unfolding host_currency_def Let_def ca_labels
    by (simp add: CURRENCY_SYMBOLS_def or_str_def U_def)
  have d: "U ''$'' \<noteq> []" "U ''CA$'' \<noteq> []" by (simp_all add: U_def)
  show ?thesis
    unfolding fmt_price_def c k h Let_def using d by (simp add: or_str_def)
qed

theorem fmt_price_symbol_witness:
  "fmt_price None None (U ''shop.example.ca'') = [] \<and>
   fmt_price (Some (2469 / 2)) None (U ''Shop.Example.CA'') = U ''CA$1,234.50'' \<and>
   fmt_price (Some (2469 / 2)) None (U ''www.example.com'') = U ''$1,234.50'' \<and>
   fmt_price (Some (2469 / 2)) (Some (U ''cad'')) (U ''www.example.com'') = U ''CA$1,234.50''"
proof -
  have r: "round_half_even (of_int 123450) = 123450" by (rule round_half_even_int)
  have f: "fmt_2f (2469 / 2) = U ''1,234.50''"
    using r by (simp add: fmt_2f_def U_def Let_def)
  show ?thesis
    using fmt_price_symbol [of None "U ''shop.example.ca''" "2469 / 2"]
      fmt_price_symbol [of None "U ''Shop.Example.CA''" "2469 / 2"]
      fmt_price_symbol [of None "U ''www.example.com''" "2469 / 2"]
      fmt_price_symbol [of "Some (U ''cad'')" "U ''www.example.com''" "2469 / 2"]
    by (simp add: f) (simp add: U_def upper_def lower_def)
qed

section \<open>Properties of the matcher\<close>

lemma one_Nil: "one p [] c = []"
  by (simp add: one_def)

lemma one_Cons: "one p (x # xs) c = (if p x then [(xs, c)] else [])"
  by (simp add: one_def)

lemma seq_star_Suc:
  "seq (star (Suc n) m) X s c =
     concat (map (\<lambda>(r, c'). if length r < length s then seq (star n m) X r c' else []) (m s c))
     @ X s c"
proof -
  have "concat (map (\<lambda>(r, c'). X r c')
          (concat (map (\<lambda>(r, c'). if length r < length s then star n m r c' else []) zs))) =
        concat (map (\<lambda>(r, c'). if length r < length s then seq (star n m) X r c' else []) zs)"
    for zs
    by (induction zs) (auto simp: seq_def)
  then show ?thesis by (simp add: seq_def)
qed

lemma seq_rep_Suc:
  "seq (rep lo (Suc n) m) X s c =
     concat (map (\<lambda>(r, c'). seq (rep (lo - 1) n m) X r c') (m s c))
     @ (if lo = 0 then X s c else [])"
proof -
  have "concat (map (\<lambda>(r, c'). X r c')
          (concat (map (\<lambda>(r, c'). rep (lo - 1) n m r c') zs))) =
        concat (map (\<lambda>(r, c'). seq (rep (lo - 1) n m) X r c') zs)"
    for zs
    by (induction zs) (auto simp: seq_def)
  then show ?thesis by (simp add: seq_def)
qed

lemma seq_rep_0: "seq (rep lo 0 m) X s c = (if lo = 0 then X s c else [])"
  by (simp add: seq_def)

lemma seq_star_0: "seq (star 0 m) X s c = X s c"
  by (simp add: seq_def)

text \<open>A greedy star of a deterministic step, followed by a matcher that fails wherever
  the step applies, takes every step.\<close>

lemma star_seq_greedy:
  assumes step: "\<And>s c. m s c = (case g s of None \<Rightarrow> [] | Some r \<Rightarrow> [(r, c)])"
    and shorter: "\<And>s r. g s = Some r \<Longrightarrow> length r < length s"
    and fails: "\<And>s r c. g s = Some r \<Longrightarrow> X s c = []"
    and iter: "\<And>s. G s = (case g s of None \<Rightarrow> s | Some r \<Rightarrow> G r)"
  shows "length s \<le> n \<Longrightarrow> seq (star n m) X s c = X (G s) c"
proof (induction n arbitrary: s)
  case 0
  then have "s = []" by simp
  moreover have "g [] = None" using shorter [of "[]"] by (cases "g []") auto
  ultimately show ?case using iter [of "[]"] by (simp only: seq_star_0) simp
next
  case (Suc n)
  show ?case
  proof (cases "g s")
    case None
    then show ?thesis using iter [of s] by (simp only: seq_star_Suc step) simp
  next
    case (Some r)
    have len: "length r < length s" using shorter [OF Some] .
    then have "length r \<le> n" using Suc.prems by simp
    from Suc.IH [OF this] have ih: "seq (star n m) X r c = X (G r) c" .
    have "seq (star (Suc n) m) X s c = seq (star n m) X r c @ X s c"
      using len by (simp only: seq_star_Suc step Some) simp
    also have "\<dots> = X (G r) c" using ih fails [OF Some] by simp
    also have "G r = G s" using iter [of s] Some by simp
    finally show ?thesis .
  qed
qed

lemma star_one_head:
  "length s \<le> n \<Longrightarrow> \<exists>tl. star n (one p) s c = (dropWhile p s, c) # tl"
proof (induction n arbitrary: s)
  case 0
  then show ?case by simp
next
  case (Suc n)
  show ?case
  proof (cases s)
    case Nil
    then show ?thesis by (simp add: one_Nil)
  next
    case (Cons x xs)
    show ?thesis
    proof (cases "p x")
      case True
      have "length xs \<le> n" using Suc.prems Cons by simp
      from Suc.IH [OF this] obtain tl where "star n (one p) xs c = (dropWhile p xs, c) # tl" by blast
      then show ?thesis using True Cons by (simp add: one_Cons)
    next
      case False
      then show ?thesis using Cons by (simp add: one_Cons)
    qed
  qed
qed

lemma rep_exact:
  "rep n n (one p) s c = (if n \<le> length (takeWhile p s) then [(drop n s, c)] else [])"
proof (induction n arbitrary: s)
  case 0
  then show ?case by simp
next
  case (Suc n)
  then show ?case by (cases s) (simp_all add: one_Nil one_Cons)
qed

lemma rep_seq:
  assumes fails: "\<And>s c. s \<noteq> [] \<Longrightarrow> p (hd s) \<Longrightarrow> X s c = []"
  shows "seq (rep lo hi (one p)) X s c =
           (if lo \<le> length (takeWhile p s) \<and> length (takeWhile p s) \<le> hi
            then X (dropWhile p s) c else [])"
proof (induction hi arbitrary: lo s)
  case 0
  show ?case
  proof (cases "s \<noteq> [] \<and> p (hd s)")
    case True
    then have "X s c = []" using fails [of s c] by simp
    moreover have "0 < length (takeWhile p s)" using True by (cases s) auto
    ultimately show ?thesis by (simp only: seq_rep_0) auto
  next
    case False
    then have "takeWhile p s = []" "dropWhile p s = s" by (cases s; simp)+
    then show ?thesis by (simp only: seq_rep_0) auto
  qed
next
  case (Suc hi)
  show ?case
  proof (cases s)
    case Nil
    then show ?thesis by (simp only: seq_rep_Suc one_Nil) simp
  next
    case (Cons x xs)
    show ?thesis
    proof (cases "p x")
      case True
      have f: "X s c = []" using fails [of s c] Cons True by simp
      have "seq (rep lo (Suc hi) (one p)) X s c = seq (rep (lo - 1) hi (one p)) X xs c"
        using True f unfolding Cons by (simp only: seq_rep_Suc one_Cons) simp
      also have "\<dots> = (if lo - 1 \<le> length (takeWhile p xs) \<and> length (takeWhile p xs) \<le> hi
            then X (dropWhile p xs) c else [])" by (rule Suc.IH)
      also have "\<dots> = (if lo \<le> length (takeWhile p s) \<and> length (takeWhile p s) \<le> Suc hi
            then X (dropWhile p s) c else [])"
        using True Cons by auto
      finally show ?thesis .
    next
      case False
      then show ?thesis unfolding Cons by (simp only: seq_rep_Suc one_Cons) simp
    qed
  qed
qed

section \<open>Properties of the money parser\<close>

lemma digit_not_sep: "is_digit k \<Longrightarrow> k \<noteq> 44 \<and> k \<noteq> 46 \<and> \<not> is_space k"
  by (auto simp: is_digit_def is_space_def)

lemma rep_2:
  "rep 2 2 (one p) s c = (case s of a # b # r \<Rightarrow> if p a \<and> p b then [(r, c)] else [] | _ \<Rightarrow> [])"
  by (simp add: numeral_2_eq_2 one_def split: list.splits)

lemma rep_3:
  "rep 3 3 (one p) s c =
     (case s of a # b # d # r \<Rightarrow> if p a \<and> p b \<and> p d then [(r, c)] else [] | _ \<Rightarrow> [])"
  by (simp add: numeral_3_eq_3 one_def split: list.splits)

lemma frac2_match: "rmatch frac2 s c = (if has_frac s then [(drop 3 s, c)] else [])"
  by (simp add: frac2_def seq_def rep_2 one_def has_frac_def split: list.splits)

lemma comma_group_match:
  "rmatch comma_group s c =
     (case (case s of k # a # b # d # r \<Rightarrow>
              if k = 44 \<and> is_digit a \<and> is_digit b \<and> is_digit d then Some r else None
            | _ \<Rightarrow> None) of None \<Rightarrow> [] | Some r \<Rightarrow> [(r, c)])"
  by (auto simp: comma_group_def seq_def rep_3 one_def split: list.splits)

lemma strip_groups_iter:
  "strip_groups s =
     (case (case s of k # a # b # d # r \<Rightarrow>
              if k = 44 \<and> is_digit a \<and> is_digit b \<and> is_digit d then Some r else None
            | _ \<Rightarrow> None) of None \<Rightarrow> s | Some r \<Rightarrow> strip_groups r)"
  by (cases s rule: strip_groups.cases) simp_all

lemma seq_star_length: "seq (\<lambda>s c. star (length s) m s c) X s c = seq (star (length s) m) X s c"
  by (simp add: seq_def)

lemma groups_frac_match:
  "rmatch (Seq (Star comma_group) frac2) s c = rmatch frac2 (strip_groups s) c"
proof -
  have "seq (star (length s) (rmatch comma_group)) (rmatch frac2) s c
        = rmatch frac2 (strip_groups s) c"
  proof (rule star_seq_greedy [where g = "\<lambda>s. case s of k # a # b # d # r \<Rightarrow>
              if k = 44 \<and> is_digit a \<and> is_digit b \<and> is_digit d then Some r else None
            | _ \<Rightarrow> None"])
    show "rmatch comma_group s c = (case (case s of k # a # b # d # r \<Rightarrow>
              if k = 44 \<and> is_digit a \<and> is_digit b \<and> is_digit d then Some r else None
            | _ \<Rightarrow> None) of None \<Rightarrow> [] | Some r \<Rightarrow> [(r, c)])" for s c
      by (rule comma_group_match)
    show "length r < length s" if "(case s of k # a # b # d # r \<Rightarrow>
              if k = 44 \<and> is_digit a \<and> is_digit b \<and> is_digit d then Some r else None
            | _ \<Rightarrow> None) = Some r" for s r :: ustr
      using that by (auto split: list.splits if_splits)
    show "rmatch frac2 s c = []" if "(case s of k # a # b # d # r \<Rightarrow>
              if k = 44 \<and> is_digit a \<and> is_digit b \<and> is_digit d then Some r else None
            | _ \<Rightarrow> None) = Some r" for s r :: ustr and c
      using that by (auto simp: frac2_match has_frac_def split: list.splits if_splits)
    show "strip_groups s = (case (case s of k # a # b # d # r \<Rightarrow>
              if k = 44 \<and> is_digit a \<and> is_digit b \<and> is_digit d then Some r else None
            | _ \<Rightarrow> None) of None \<Rightarrow> s | Some r \<Rightarrow> strip_groups r)" for s
      by (rule strip_groups_iter)
  qed simp
  then show ?thesis by (simp add: seq_star_length)
qed

lemma strip_groups_digit: "s \<noteq> [] \<Longrightarrow> is_digit (hd s) \<Longrightarrow> strip_groups s = s"
  by (cases s rule: strip_groups.cases) (auto dest: digit_not_sep)

lemma has_frac_digit: "s \<noteq> [] \<Longrightarrow> is_digit (hd s) \<Longrightarrow> \<not> has_frac s"
  by (cases s) (auto simp: has_frac_def dest: digit_not_sep split: list.splits)

lemma grouped_match:
  "rmatch grouped_rx s c =
     (if 1 \<le> length (takeWhile is_digit s) \<and> length (takeWhile is_digit s) \<le> 3
      then rmatch frac2 (strip_groups (dropWhile is_digit s)) c else [])"
proof -
  have "seq (rep 1 3 (one is_digit)) (rmatch (Seq (Star comma_group) frac2)) s c =
     (if 1 \<le> length (takeWhile is_digit s) \<and> length (takeWhile is_digit s) \<le> 3
      then rmatch (Seq (Star comma_group) frac2) (dropWhile is_digit s) c else [])"
    by (rule rep_seq)
      (simp only: groups_frac_match frac2_match, simp add: strip_groups_digit has_frac_digit)
  moreover have "rmatch grouped_rx s c =
      seq (rep 1 3 (one is_digit)) (rmatch (Seq (Star comma_group) frac2)) s c"
    by (simp add: grouped_rx_def)
  ultimately show ?thesis by (simp only: groups_frac_match)
qed

lemma plain_match_nil: "\<not> (s \<noteq> [] \<and> is_digit (hd s)) \<Longrightarrow> rmatch plain_rx s c = []"
  by (cases s) (auto simp: plain_rx_def seq_def one_def)

lemma plain_match_head:
  assumes "s \<noteq> []" "is_digit (hd s)"
  shows "\<exists>tl. rmatch plain_rx s c =
           (if has_frac (dropWhile is_digit s) then drop 3 (dropWhile is_digit s)
            else dropWhile is_digit s, c) # tl"
proof -
  obtain x xs where s: "s = x # xs" and x: "is_digit x" using assms by (cases s) auto
  obtain tl where st: "star (length xs) (one is_digit) xs c = (dropWhile is_digit xs, c) # tl"
    using star_one_head [of xs "length xs" is_digit c] by auto
  have "rmatch plain_rx s c =
        concat (map (\<lambda>(r, c'). rmatch frac2 r c' @ [(r, c')]) (star (length xs) (one is_digit) xs c))"
    using x by (simp add: plain_rx_def seq_def one_Cons s)
  then show ?thesis using st x s by (simp add: frac2_match)
qed

lemma number_match_nil:
  "\<not> (s \<noteq> [] \<and> is_digit (hd s)) \<Longrightarrow> rmatch (Alt grouped_rx plain_rx) s c = []"
proof -
  assume a: "\<not> (s \<noteq> [] \<and> is_digit (hd s))"
  then have "takeWhile is_digit s = []" by (cases s) auto
  then show ?thesis using plain_match_nil [OF a] by (simp add: grouped_match)
qed

lemma number_match_head:
  assumes "s \<noteq> []" "is_digit (hd s)"
  shows "\<exists>tl. rmatch (Alt grouped_rx plain_rx) s c = (number_end s, c) # tl"
proof -
  have n: "1 \<le> length (takeWhile is_digit s)" using assms by (cases s) auto
  from plain_match_head [OF assms] obtain tl where
    p: "rmatch plain_rx s c =
           (if has_frac (dropWhile is_digit s) then drop 3 (dropWhile is_digit s)
            else dropWhile is_digit s, c) # tl" by blast
  show ?thesis using n p
    by (auto simp: grouped_match frac2_match number_end_def Let_def)
qed

lemma spaces_number_match:
  "rmatch (Seq (Star Space) (Grp 2 (Alt grouped_rx plain_rx))) s c =
     rmatch (Grp 2 (Alt grouped_rx plain_rx)) (dropWhile is_space s) c"
proof -
  have "seq (star (length s) (one is_space)) (rmatch (Grp 2 (Alt grouped_rx plain_rx))) s c
        = rmatch (Grp 2 (Alt grouped_rx plain_rx)) (dropWhile is_space s) c"
  proof (rule star_seq_greedy [where g = "\<lambda>s. case s of [] \<Rightarrow> None
            | x # xs \<Rightarrow> if is_space x then Some xs else None"])
    show "one is_space s c = (case (case s of [] \<Rightarrow> None
            | x # xs \<Rightarrow> if is_space x then Some xs else None) of None \<Rightarrow> [] | Some r \<Rightarrow> [(r, c)])"
      for s c
      by (simp add: one_def split: list.splits)
    show "length r < length s" if "(case s of [] \<Rightarrow> None
            | x # xs \<Rightarrow> if is_space x then Some xs else None) = Some r" for s r :: ustr
      using that by (auto split: list.splits if_splits)
    show "rmatch (Grp 2 (Alt grouped_rx plain_rx)) s c = []" if "(case s of [] \<Rightarrow> None
            | x # xs \<Rightarrow> if is_space x then Some xs else None) = Some r" for s r :: ustr and c
    proof -
      from that have "\<not> (s \<noteq> [] \<and> is_digit (hd s))"
        by (auto split: list.splits if_splits dest: digit_not_sep)
      from number_match_nil [OF this] show ?thesis by (simp del: rmatch.simps add: rmatch.simps(11))
    qed
    show "dropWhile is_space s = (case (case s of [] \<Rightarrow> None
            | x # xs \<Rightarrow> if is_space x then Some xs else None) of None \<Rightarrow> s
            | Some r \<Rightarrow> dropWhile is_space r)" for s
      by (cases s) auto
  qed simp
  moreover have "rmatch (Seq (Star Space) (Grp 2 (Alt grouped_rx plain_rx))) s c =
     seq (star (length s) (one is_space)) (rmatch (Grp 2 (Alt grouped_rx plain_rx))) s c"
    by (simp add: seq_def)
  ultimately show ?thesis by (simp only:)
qed

lemma group2_nil:
  "\<not> (s \<noteq> [] \<and> is_digit (hd s)) \<Longrightarrow> rmatch (Grp 2 (Alt grouped_rx plain_rx)) s c = []"
  using number_match_nil [of s c] by (simp del: rmatch.simps add: rmatch.simps(11))

lemma group2_head:
  assumes "s \<noteq> []" "is_digit (hd s)"
  shows "\<exists>tl. rmatch (Grp 2 (Alt grouped_rx plain_rx)) s c =
           (number_end s, (2, number_at s) # c) # tl"
proof -
  from number_match_head [OF assms] obtain tl where
    "rmatch (Alt grouped_rx plain_rx) s c = (number_end s, c) # tl" by blast
  then show ?thesis by (simp del: rmatch.simps add: rmatch.simps(11) number_at_def)
qed

lemma dropWhile_space_digit:
  assumes "dropWhile is_space s \<noteq> []" "is_digit (hd (dropWhile is_space s))"
  shows "dropWhile (\<lambda>c. \<not> is_digit c) s = dropWhile is_space s"
proof -
  have "s = takeWhile is_space s @ dropWhile is_space s" by simp
  moreover have "\<forall>x \<in> set (takeWhile is_space s). \<not> is_digit x"
    by (auto dest: set_takeWhileD digit_not_sep)
  ultimately have "dropWhile (\<lambda>c. \<not> is_digit c) s =
      dropWhile (\<lambda>c. \<not> is_digit c) (dropWhile is_space s)"
    by (metis dropWhile_append2)
  also have "\<dots> = dropWhile is_space s" using assms by (cases "dropWhile is_space s") auto
  finally show ?thesis .
qed

lemma symbol_match:
  "rmatch (Grp 1 symbol_rx) s c = [] \<or>
   (\<exists>y r c'. rmatch (Grp 1 symbol_rx) s c = [(r, c')] \<and> s = y @ r
        \<and> (\<forall>x \<in> set y. \<not> is_digit x))"
proof -
  have a: "rmatch (OneOf [36, 163, 8364]) s c =
      (case s of [] \<Rightarrow> [] | x # xs \<Rightarrow> if x \<in> {36, 163, 8364} then [(xs, c)] else [])"
    by (auto simp: one_def split: list.splits)
  have b: "rmatch (Seq (Chr 67) (Seq (Chr 65) (Chr 36))) s c =
      (case s of x # y # z # r \<Rightarrow> if x = 67 \<and> y = 65 \<and> z = 36 then [(r, c)] else [] | _ \<Rightarrow> [])"
    by (simp add: one_def seq_def split: list.splits)
  have nd: "\<not> is_digit 36" "\<not> is_digit 163" "\<not> is_digit 8364" "\<not> is_digit 67" "\<not> is_digit 65"
    by (simp_all add: is_digit_def)
  have "rmatch (Alt (OneOf [36, 163, 8364]) (Seq (Chr 67) (Seq (Chr 65) (Chr 36)))) s c = [] \<or>
     (\<exists>y r. rmatch (Alt (OneOf [36, 163, 8364]) (Seq (Chr 67) (Seq (Chr 65) (Chr 36)))) s c
             = [(r, c)] \<and> s = y @ r \<and> (\<forall>x \<in> set y. \<not> is_digit x))"
  proof (cases s)
    case Nil
    then show ?thesis by (simp add: one_def seq_def)
  next
    case (Cons x xs)
    show ?thesis
    proof (cases "x \<in> {36, 163, 8364}")
      case True
      then have "rmatch (Alt (OneOf [36, 163, 8364]) (Seq (Chr 67) (Seq (Chr 65) (Chr 36)))) s c
          = [(xs, c)]"
        unfolding rmatch.simps(6) a b using Cons by (auto split: list.splits)
      moreover have "s = [x] @ xs" using Cons by simp
      moreover have "\<forall>z \<in> set [x]. \<not> is_digit z" using True nd by auto
      ultimately show ?thesis by blast
    next
      case False
      show ?thesis
      proof (cases "\<exists>r. s = 67 # 65 # 36 # r")
        case True
        then obtain r where r: "s = [67, 65, 36] @ r" by auto
        then have "rmatch (Alt (OneOf [36, 163, 8364]) (Seq (Chr 67) (Seq (Chr 65) (Chr 36)))) s c
          = [(r, c)]"
          unfolding rmatch.simps(6) a b by simp
        moreover have "\<forall>z \<in> set [67, 65, 36]. \<not> is_digit z" using nd by simp
        ultimately show ?thesis using r by blast
      next
        case False
        then have "rmatch (Alt (OneOf [36, 163, 8364]) (Seq (Chr 67) (Seq (Chr 65) (Chr 36)))) s c
          = []"
          unfolding rmatch.simps(6) a b using \<open>x \<notin> {36, 163, 8364}\<close> Cons
          by (auto split: list.splits)
        then show ?thesis by blast
      qed
    qed
  qed
  then show ?thesis
    unfolding symbol_rx_def by (auto simp del: rmatch.simps simp add: rmatch.simps(11))
qed

lemma money_unfold:
  "rmatch MONEY_RE s c =
     concat (map (\<lambda>(r, c'). rmatch (Grp 2 (Alt grouped_rx plain_rx)) (dropWhile is_space r) c')
               (rmatch (Grp 1 symbol_rx) s c))
     @ rmatch (Grp 2 (Alt grouped_rx plain_rx)) (dropWhile is_space s) c"
proof -
  have "rmatch MONEY_RE s c =
     concat (map (\<lambda>(r, c'). rmatch (Seq (Star Space) (Grp 2 (Alt grouped_rx plain_rx))) r c')
               (rmatch (Grp 1 symbol_rx) s c))
     @ rmatch (Seq (Star Space) (Grp 2 (Alt grouped_rx plain_rx))) s c"
    by (simp add: MONEY_RE_def seq_def)
  then show ?thesis by (simp only: spaces_number_match)
qed

lemma money_digit: "s \<noteq> [] \<Longrightarrow> is_digit (hd s) \<Longrightarrow> rmatch MONEY_RE s c \<noteq> []"
proof -
  assume a: "s \<noteq> []" "is_digit (hd s)"
  then have "dropWhile is_space s = s" by (cases s) (auto dest: digit_not_sep)
  with group2_head [OF a, of c] show ?thesis
    unfolding money_unfold by (auto simp del: rmatch.simps)
qed

lemma money_first:
  assumes "rmatch MONEY_RE s c = m # ms"
  shows "dropWhile (\<lambda>c. \<not> is_digit c) s \<noteq> [] \<and>
         match_group (snd m) 2 = Some (number_at (dropWhile (\<lambda>c. \<not> is_digit c) s))"
proof -
  have key: "dropWhile (\<lambda>c. \<not> is_digit c) r \<noteq> [] \<and>
         match_group (snd m) 2 = Some (number_at (dropWhile (\<lambda>c. \<not> is_digit c) r))"
    if "rmatch (Grp 2 (Alt grouped_rx plain_rx)) (dropWhile is_space r) c' = m # ms'"
    for r c' ms'
  proof -
    have d: "dropWhile is_space r \<noteq> [] \<and> is_digit (hd (dropWhile is_space r))"
      using that group2_nil [of "dropWhile is_space r" c'] by auto
    then have e: "dropWhile (\<lambda>c. \<not> is_digit c) r = dropWhile is_space r"
      using dropWhile_space_digit by blast
    from d group2_head [of "dropWhile is_space r" c'] that
    have "m = (number_end (dropWhile is_space r), (2, number_at (dropWhile is_space r)) # c')"
      by auto
    then show ?thesis using d e by (simp add: match_group_def)
  qed
  from symbol_match [of s c] show ?thesis
  proof
    assume "rmatch (Grp 1 symbol_rx) s c = []"
    then have "rmatch (Grp 2 (Alt grouped_rx plain_rx)) (dropWhile is_space s) c = m # ms"
      using assms unfolding money_unfold by (simp del: rmatch.simps)
    from key [OF this] show ?thesis .
  next
    assume "\<exists>y r c'. rmatch (Grp 1 symbol_rx) s c = [(r, c')] \<and> s = y @ r
        \<and> (\<forall>x \<in> set y. \<not> is_digit x)"
    then obtain y r c' where g: "rmatch (Grp 1 symbol_rx) s c = [(r, c')]" and s: "s = y @ r"
      and y: "\<forall>x \<in> set y. \<not> is_digit x" by blast
    have dr: "dropWhile (\<lambda>c. \<not> is_digit c) s = dropWhile (\<lambda>c. \<not> is_digit c) r"
      using s y by (simp add: dropWhile_append2)
    have u: "rmatch (Grp 2 (Alt grouped_rx plain_rx)) (dropWhile is_space r) c'
             @ rmatch (Grp 2 (Alt grouped_rx plain_rx)) (dropWhile is_space s) c = m # ms"
      using assms unfolding money_unfold g by (simp del: rmatch.simps)
    show ?thesis
    proof (cases "rmatch (Grp 2 (Alt grouped_rx plain_rx)) (dropWhile is_space r) c'")
      case Nil
      with u have "rmatch (Grp 2 (Alt grouped_rx plain_rx)) (dropWhile is_space s) c = m # ms"
        by (simp del: rmatch.simps)
      from key [OF this] show ?thesis .
    next
      case (Cons m' ms')
      with u have "m' = m" by (simp del: rmatch.simps)
      with Cons key [of r c' ms'] dr show ?thesis by simp
    qed
  qed
qed

lemma search_money:
  "(dropWhile (\<lambda>c. \<not> is_digit c) t = [] \<longrightarrow> search MONEY_RE t = None) \<and>
   (dropWhile (\<lambda>c. \<not> is_digit c) t \<noteq> [] \<longrightarrow>
      (\<exists>m. search MONEY_RE t = Some m \<and>
           match_group m 2 = Some (number_at (dropWhile (\<lambda>c. \<not> is_digit c) t))))"
proof (induction t)
  case Nil
  have "rmatch MONEY_RE [] [] = []"
    using money_first [of "[]" "[]"] by (cases "rmatch MONEY_RE [] []") auto
  then show ?case by simp
next
  case (Cons x xs)
  show ?case
  proof (cases "rmatch MONEY_RE (x # xs) []")
    case Nil
    then have nd: "\<not> is_digit x" using money_digit [of "x # xs" "[]"] by auto
    have s: "search MONEY_RE (x # xs) = search MONEY_RE xs" using Nil by simp
    have d: "dropWhile (\<lambda>c. \<not> is_digit c) (x # xs) = dropWhile (\<lambda>c. \<not> is_digit c) xs"
      using nd by simp
    show ?thesis unfolding s d by (rule Cons.IH)
  next
    case (Cons m ms)
    have s: "search MONEY_RE (x # xs) = Some (snd m)" using Cons by simp
    from money_first [OF Cons] show ?thesis unfolding s by simp
  qed
qed

lemma parse_price_number_first: "parse_price_number t = Inr (first_price t)"
proof (cases "dropWhile (\<lambda>c. \<not> is_digit c) t = []")
  case True
  then have "search MONEY_RE t = None" using search_money [of t] by simp
  then show ?thesis using True by (simp add: parse_price_number_def first_price_def)
next
  case False
  then obtain m where "search MONEY_RE t = Some m"
    "match_group m 2 = Some (number_at (dropWhile (\<lambda>c. \<not> is_digit c) t))"
    using search_money [of t] by auto
  moreover have "t \<noteq> []" using False by auto
  ultimately show ?thesis using False
    by (simp add: parse_price_number_def first_price_def split: option.splits)
qed

lemma strip_groups_split:
  "\<exists>gs. r = gs @ strip_groups r \<and> list_all is_digit (filter (\<lambda>c. c \<noteq> 44) gs)"
proof (induction r rule: strip_groups.induct)
  case (1 k a b c r)
  show ?case
  proof (cases "k = 44 \<and> is_digit a \<and> is_digit b \<and> is_digit c")
    case True
    with 1 obtain gs where "r = gs @ strip_groups r"
      "list_all is_digit (filter (\<lambda>c. c \<noteq> 44) gs)" by blast
    then have "k # a # b # c # r = (k # a # b # c # gs) @ strip_groups (k # a # b # c # r) \<and>
        list_all is_digit (filter (\<lambda>c. c \<noteq> 44) (k # a # b # c # gs))"
      using True by auto
    then show ?thesis by blast
  next
    case False
    then have "k # a # b # c # r = [] @ strip_groups (k # a # b # c # r)" by auto
    then show ?thesis by (intro exI [of _ "[]"]) simp
  qed
qed (auto intro: exI [of _ "[]"])

lemma py_float_digits: "ds \<noteq> [] \<Longrightarrow> list_all is_digit ds \<Longrightarrow> py_float ds \<noteq> None"
proof -
  assume a: "ds \<noteq> []" "list_all is_digit ds"
  then have tk: "takeWhile is_digit ds = ds" and dr: "dropWhile is_digit ds = []"
    by (simp_all add: list_all_iff)
  show ?thesis unfolding py_float_def Let_def tk dr using a by simp
qed

lemma py_float_frac:
  assumes "ds \<noteq> []" "list_all is_digit ds" "is_digit a" "is_digit b"
  shows "py_float (ds @ [46, a, b]) \<noteq> None"
proof -
  have nd: "\<not> is_digit 46" by (simp add: is_digit_def)
  have tk: "takeWhile is_digit (ds @ [46, a, b]) = ds"
    and dr: "dropWhile is_digit (ds @ [46, a, b]) = [46, a, b]"
    using assms nd by (simp_all add: list_all_iff takeWhile_append2 dropWhile_append2)
  show ?thesis unfolding py_float_def Let_def tk dr using assms by simp
qed

lemma number_at_float:
  assumes "d \<noteq> []" "is_digit (hd d)"
  shows "py_float (filter (\<lambda>c. c \<noteq> 44) (number_at d)) \<noteq> None"
proof -
  define ds where "ds = takeWhile is_digit d"
  define r where "r = dropWhile is_digit d"
  have d: "d = ds @ r" by (simp add: ds_def r_def)
  have ds: "ds \<noteq> []" "list_all is_digit ds"
    using assms by (cases d; auto simp: ds_def list_all_iff dest: set_takeWhileD)+
  have f: "filter (\<lambda>c. c \<noteq> 44) ds = ds"
    using ds(2) by (auto simp: list_all_iff filter_id_conv dest: digit_not_sep)
  obtain gs where gs: "r = gs @ strip_groups r" "list_all is_digit (filter (\<lambda>c. c \<noteq> 44) gs)"
    using strip_groups_split by blast
  consider (grouped) "length ds \<le> 3 \<and> has_frac (strip_groups r)"
    | (frac) "\<not> (length ds \<le> 3 \<and> has_frac (strip_groups r))" "has_frac r"
    | (plain) "\<not> (length ds \<le> 3 \<and> has_frac (strip_groups r))" "\<not> has_frac r" by blast
  then show ?thesis
  proof cases
    case grouped
    then obtain a b rest where g: "strip_groups r = 46 # a # b # rest" "is_digit a" "is_digit b"
      by (auto simp: has_frac_def split: list.splits)
    have e: "number_end d = rest" using grouped g by (simp add: number_end_def flip: ds_def r_def)
    have "d = (ds @ gs @ [46, a, b]) @ rest" using d gs(1) g(1) by simp
    then have "number_at d = ds @ gs @ [46, a, b]" unfolding number_at_def e by simp
    then have "filter (\<lambda>c. c \<noteq> 44) (number_at d) = (ds @ filter (\<lambda>c. c \<noteq> 44) gs) @ [46, a, b]"
      using f g(2,3) by (auto dest: digit_not_sep)
    moreover have "py_float ((ds @ filter (\<lambda>c. c \<noteq> 44) gs) @ [46, a, b]) \<noteq> None"
      by (rule py_float_frac) (use ds gs(2) g in simp_all)
    ultimately show ?thesis by simp
  next
    case frac
    then obtain a b rest where g: "r = 46 # a # b # rest" "is_digit a" "is_digit b"
      by (auto simp: has_frac_def split: list.splits)
    have e: "number_end d = rest" using frac g
      by (auto simp add: number_end_def Let_def simp flip: ds_def r_def)
    have "d = (ds @ [46, a, b]) @ rest" using d g(1) by simp
    then have "number_at d = ds @ [46, a, b]" unfolding number_at_def e by simp
    then have "filter (\<lambda>c. c \<noteq> 44) (number_at d) = ds @ [46, a, b]"
      using f g(2,3) by (auto dest: digit_not_sep)
    then show ?thesis using py_float_frac [OF ds g(2,3)] by simp
  next
    case plain
    have e: "number_end d = r" using plain
      by (auto simp add: number_end_def Let_def simp flip: ds_def r_def)
    have "number_at d = ds" unfolding number_at_def e using d by simp
    then show ?thesis using py_float_digits [OF ds] f by simp
  qed
qed

lemma first_price_present:
  "(\<exists>c \<in> set t. is_digit c) \<Longrightarrow> first_price t \<noteq> None"
proof -
  assume "\<exists>c \<in> set t. is_digit c"
  then have d: "dropWhile (\<lambda>c. \<not> is_digit c) t \<noteq> []" by (simp add: dropWhile_eq_Nil_conv)
  then have "is_digit (hd (dropWhile (\<lambda>c. \<not> is_digit c) t))"
    using hd_dropWhile [of "\<lambda>c. \<not> is_digit c" t] by simp
  from number_at_float [OF d this] d show ?thesis by (simp add: first_price_def)
qed

lemma first_price_absent: "(\<forall>c \<in> set t. \<not> is_digit c) \<Longrightarrow> first_price t = None"
  by (simp add: first_price_def)

lemma first_price_examples:
  "first_price (U ''$1,234.56'') = Some (123456 / 100)"
  "first_price (8364 # U ''12.00'') = Some 12"
  "first_price (U ''1234'') = Some 1234"
  "first_price (U ''$1,234'') = Some 1"
  by (simp_all add: first_price_def U_def is_digit_def number_at_def number_end_def has_frac_def
      py_float_def digits_val_def)

text \<open>
  C1 as stated reads a comma-grouped number without a fraction as grouped. The code does
  not: the grouped alternative of \<open>MONEY_RE\<close> requires the two decimals, so \<open>$1,234\<close>
  is parsed as \<open>1\<close>.
\<close>

theorem parse_price_number_counterexample:
  "parse_price_number (U ''$1,234'') = Inr (Some 1) \<and>
   parse_price_number (U ''$1,234'') \<noteq> Inr (Some 1234)"
  by (simp add: parse_price_number_first first_price_examples)

text \<open>
  C1 (as amended). For every text the money parser returns, without raising, the value of
  the number that starts at the first digit of the text, with the commas removed: in
  grouped form (one to three digits, groups of a comma and three digits, and a mandatory
  point with two digits) when the text has it there, else in plain form (the run of
  digits, with a point and two digits when they follow). A currency symbol and white space
  before the number do not change the result. A text with a digit gives a value, a text
  with no digit gives absent; \<open>$1,234.56\<close> gives 1234.56, the euro sign and \<open>12.00\<close> give
  12, \<open>1234\<close> gives 1234.
\<close>

theorem parse_price_number_spec:
  "parse_price_number t = Inr (first_price t) \<and>
   ((\<exists>c \<in> set t. is_digit c) \<longrightarrow> (\<exists>v. parse_price_number t = Inr (Some v))) \<and>
   ((\<forall>c \<in> set t. \<not> is_digit c) \<longrightarrow> parse_price_number t = Inr None) \<and>
   parse_price_number (U ''$1,234.56'') = Inr (Some (123456 / 100)) \<and>
   parse_price_number (8364 # U ''12.00'') = Inr (Some 12) \<and>
   parse_price_number (U ''1234'') = Inr (Some 1234)"
  using first_price_present [of t] first_price_absent [of t]
  by (auto simp: parse_price_number_first first_price_examples)

theorem parse_price_number_spec_witness:
  "(\<exists>c \<in> set (U ''Now $12,345.50 only''). is_digit c) \<and>
   parse_price_number (U ''Now $12,345.50 only'') = Inr (Some (24691 / 2)) \<and>
   \<not> (\<exists>c \<in> set (U ''call us''). is_digit c) \<and>
   parse_price_number (U ''call us'') = Inr None"
proof -
  have a: "first_price (U ''Now $12,345.50 only'') = Some (24691 / 2)"
    by (simp add: first_price_def U_def is_digit_def number_at_def number_end_def has_frac_def
      py_float_def digits_val_def)
  have b: "\<exists>c \<in> set (U ''Now $12,345.50 only''). is_digit c"
    by (simp add: U_def is_digit_def)
  have c: "\<forall>c \<in> set (U ''call us''). \<not> is_digit c"
    by (simp add: U_def is_digit_def)
  show ?thesis
    using parse_price_number_spec [of "U ''Now $12,345.50 only''"]
      parse_price_number_spec [of "U ''call us''"] a b c
    by auto
qed

section \<open>Properties of the extractors\<close>

text \<open>
  C5 as stated returns the \<open>srcset\<close> attribute when it is the first one available. The
  code never reads it: an image that has only a \<open>srcset\<close> gives the empty string, and an
  image with a \<open>srcset\<close> and a \<open>src\<close> gives the \<open>src\<close>.
\<close>

theorem extract_image_url_counterexample:
  "extract_image_url srcset_only = [] \<and>
   extract_image_url srcset_and_src = U ''b.jpg''"
  by (simp add: extract_image_url_def srcset_only_def srcset_and_src_def img_el_def
      select_one_def attr_def or_str_def U_def)

lemma ebind_Inr: "ebind (Inr x) f = f x"
  by (simp add: ebind_def)

lemma ebind_Inl: "ebind (Inl e) f = Inl e"
  by (simp add: ebind_def)

text \<open>
  C5 (as amended). Image extraction takes the first image that has a \<open>data-src\<close>
  attribute, or else the first that has a \<open>srcset\<close> attribute, or else the first that has
  a \<open>src\<close> attribute, and returns the \<open>data-src\<close> of that image when it is not empty, else
  its \<open>src\<close> when it is not empty, else the empty string; with no such image it returns
  the empty string. On a product page the images are those of the gallery or media
  container when there is one and of the whole document otherwise; for a listing card
  they are those of the card.
\<close>

theorem extract_image_url_spec:
  "extract_image_url c =
     (case select_one c (U ''img[data-src]'') of
        Some el \<Rightarrow> or_str (attr el (U ''data-src'')) (or_str (attr el (U ''src'')) [])
      | None \<Rightarrow>
         (case select_one c (U ''img[srcset]'') of
            Some el \<Rightarrow> or_str (attr el (U ''data-src'')) (or_str (attr el (U ''src'')) [])
          | None \<Rightarrow>
             (case select_one c (U ''img[src]'') of
                Some el \<Rightarrow> or_str (attr el (U ''data-src'')) (or_str (attr el (U ''src'')) [])
              | None \<Rightarrow> []))) \<and>
   (scrape_product ev final_url soup rls = Inr [it] \<longrightarrow>
      image_url it =
        extract_image_url
          (case select_one soup
                  (U ''.gallery-placeholder, .product.media, .fotorama, .product-image'') of
             Some g \<Rightarrow> g | None \<Rightarrow> soup)) \<and>
   (card_item ev final_url host rls crd a = Inr it' \<longrightarrow> image_url it' = extract_image_url crd)"
proof -
  have a: "image_url it =
        extract_image_url
          (case select_one soup
                  (U ''.gallery-placeholder, .product.media, .fotorama, .product-image'') of
             Some g \<Rightarrow> g | None \<Rightarrow> soup)"
    if "scrape_product ev final_url soup rls = Inr [it]"
    using that
    by (auto simp: scrape_product_def Let_def ebind_def split: sum.splits prod.splits if_splits)
  have b: "image_url it' = extract_image_url crd"
    if "card_item ev final_url host rls crd a = Inr it'"
    using that
    by (auto simp: card_item_def Let_def ebind_def split: sum.splits prod.splits if_splits)
  show ?thesis using a b
    by (simp add: extract_image_url_def split: option.splits)
qed

lemma candidate_products_typed: "typed_product obj \<Longrightarrow> candidate_products obj \<noteq> []"
  by (simp add: candidate_products_def)

lemma candidate_products_graph:
  "obj_get obj (U ''@graph'') = Some (JArr gs) \<Longrightarrow> g \<in> set gs \<Longrightarrow> typed_product g \<Longrightarrow>
   candidate_products obj \<noteq> []"
  by (auto simp: candidate_products_def obj_get_def filter_empty_conv split: json.splits)

lemma find_jsonld_products_block:
  assumes "tag \<in> set (select soup (U ''script[type=application/ld+json]''))"
    and "loads ev (get_text tag) = Some data"
    and "(case data of JObj kv \<Rightarrow> candidate_products data
             | JArr candidates \<Rightarrow> concat (map candidate_products candidates)
             | _ \<Rightarrow> []) \<noteq> []"
  shows "find_jsonld_products ev soup \<noteq> []"
  using assms unfolding find_jsonld_products_def
  by (auto simp del: concat_eq_Nil_conv simp add: concat_eq_Nil_conv intro!: bexI [of _ tag])

text \<open>
  C7. A document with a structured-data block that parses to an object typed
  \<open>Product\<close>, or to an object (or a list with an object) whose \<open>@graph\<close> list has such an
  object, or to a list with such an object, is a product page, and the orchestrator
  extracts it as a product.
\<close>

theorem product_block_is_product_page:
  assumes "tag \<in> set (select soup (U ''script[type=application/ld+json]''))"
    and "loads ev (get_text tag) = Some data"
    and "(\<exists>kv. data = JObj kv \<and> typed_product data)
       \<or> (\<exists>kv gs g. data = JObj kv \<and> obj_get data (U ''@graph'') = Some (JArr gs)
              \<and> g \<in> set gs \<and> typed_product g)
       \<or> (\<exists>objs obj. data = JArr objs \<and> obj \<in> set objs \<and> typed_product obj)
       \<or> (\<exists>objs obj gs g. data = JArr objs \<and> obj \<in> set objs
              \<and> obj_get obj (U ''@graph'') = Some (JArr gs) \<and> g \<in> set gs \<and> typed_product g)"
  shows "is_product_page ev soup \<and>
         (get_html_safe ev u = Inr (final_url, soup) \<longrightarrow>
            scrape_url ev u rls crawl_pagination max_pages = scrape_product ev final_url soup rls)"
proof -
  have "(case data of JObj kv \<Rightarrow> candidate_products data
             | JArr candidates \<Rightarrow> concat (map candidate_products candidates)
             | _ \<Rightarrow> []) \<noteq> []"
    using assms(3) candidate_products_typed candidate_products_graph
    by (fastforce)
  from find_jsonld_products_block [OF assms(1,2) this]
  have "is_product_page ev soup" by (simp add: is_product_page_def)
  then show ?thesis by (simp add: scrape_url_def)
qed

theorem product_block_is_product_page_witness:
  "is_product_page graph_env graph_product_page \<and>
   scrape_url graph_env (U ''https://shop.example.com/p'') no_rules True 20
     = scrape_product graph_env (U ''https://shop.example.com/p'') graph_product_page
         no_rules"
proof -
  let ?tag = "Element [] (U ''{graph}'') (\<lambda>_. [])"
  let ?g = "JObj [(U ''@type'', JStr (U ''Product'')), (U ''name'', JStr (U ''Phone''))]"
  let ?gs = "[JObj [(U ''@type'', JStr (U ''WebSite''))], ?g]"
  let ?data = "JObj [(U ''@context'', JStr (U ''https://schema.org'')), (U ''@graph'', JArr ?gs)]"
  have 1: "?tag \<in> set (select graph_product_page (U ''script[type=application/ld+json]''))"
    by (simp add: graph_product_page_def)
  have 2: "loads graph_env (get_text ?tag) = Some ?data"
    by (simp add: graph_env_def)
  have 3: "obj_get ?data (U ''@graph'') = Some (JArr ?gs) \<and> ?g \<in> set ?gs \<and> typed_product ?g"
    by (simp add: obj_get_def typed_product_def U_def)
  have 4: "get_html_safe graph_env (U ''https://shop.example.com/p'')
            = Inr (U ''https://shop.example.com/p'', graph_product_page)"
    by (simp add: get_html_safe_def graph_env_def)
  show ?thesis
    using product_block_is_product_page [OF 1 2, of "U ''https://shop.example.com/p''"
        "U ''https://shop.example.com/p''" "no_rules" True 20] 3 4
    by blast
qed

lemma apply_rules_None_iff: "apply_rules p a b = None \<longleftrightarrow> p = None"
  by (simp add: apply_rules_def Let_def split: option.splits)

lemma price_in_elements_total: "\<exists>v. price_in_elements es = Inr v"
  by (induction es) (auto simp: parse_price_number_first ebind_Inr)

lemma price_by_selectors_total: "\<exists>r. price_by_selectors soup sels = Inr r"
proof (induction sels)
  case Nil
  show ?case by simp
next
  case (Cons sel sels)
  obtain v where "price_in_elements (select soup sel) = Inr v"
    using price_in_elements_total by blast
  with Cons show ?case by (auto simp: ebind_Inr)
qed

lemma extract_price_total: "\<exists>r. extract_price ev soup = Inr r"
  using price_by_selectors_total by (auto simp: extract_price_def split: option.splits)

lemma price_from_offers_total:
  "\<exists>r. price_from_offers ev j = Inr r" "\<exists>r. price_from_offer_list ev js = Inr r"
proof (induction ev j and ev js rule: price_from_offers_price_from_offer_list.induct)
  case (1 ev kv)
  show ?case
    by (auto simp: Let_def parse_price_number_first ebind_Inr split: option.splits)
next
  case (8 ev off offers)
  then show ?case
    by (cases "price_from_offers ev off") (auto simp: ebind_def)
qed simp_all

lemma jsonld_fields_total: "\<exists>r. jsonld_fields ev jl = Inr r"
proof (cases jl)
  case Nil
  then show ?thesis by (simp add: jsonld_fields_def)
next
  case (Cons obj rest)
  have "\<exists>r. (case obj_get obj (U ''offers'') of None \<Rightarrow> Inr (None, None)
      | Some offers \<Rightarrow> price_from_offers ev offers) = Inr r"
    using price_from_offers_total(1) [of ev] by (cases "obj_get obj (U ''offers'')") auto
  then obtain r where "(case obj_get obj (U ''offers'') of None \<Rightarrow> Inr (None, None)
      | Some offers \<Rightarrow> price_from_offers ev offers) = Inr r" by blast
  then show ?thesis using Cons
    by (cases r) (auto simp: jsonld_fields_def Let_def ebind_Inr)
qed

text \<open>The product extractor returns exactly one item, whose discounted value is present
  exactly when its price is.\<close>

lemma scrape_product_item:
  "\<exists>it. scrape_product ev final_url soup rls = Inr [it] \<and>
        (discounted_value it = None \<longleftrightarrow> price_value it = None)"
proof -
  obtain t pv cur src where j: "jsonld_fields ev (find_jsonld_products ev soup) = Inr (t, pv, cur, src)"
    using jsonld_fields_total by (metis prod_cases4)
  obtain pv' cur' sel where e: "extract_price ev soup = Inr (pv', cur', sel)"
    using extract_price_total by (metis prod_cases3)
  show ?thesis
    by (simp add: scrape_product_def Let_def j e ebind_Inr apply_rules_None_iff)
qed

lemma card_item_total:
  "\<exists>it. card_item ev final_url host rls crd a = Inr it \<and>
        (discounted_value it = None \<longleftrightarrow> price_value it = None)"
  by (simp add: card_item_def Let_def ebind_Inr parse_price_number_first apply_rules_None_iff)

lemma scrape_cards_total:
  "\<exists>its. scrape_cards ev final_url host rls cards = Inr its \<and>
         (\<forall>it \<in> set its. discounted_value it = None \<longleftrightarrow> price_value it = None)"
proof (induction cards)
  case Nil
  show ?case by simp
next
  case (Cons crd cards)
  then obtain its where its: "scrape_cards ev final_url host rls cards = Inr its"
    "\<forall>it \<in> set its. discounted_value it = None \<longleftrightarrow> price_value it = None" by blast
  show ?case
  proof (cases "select_one crd (U ''a[href]'')")
    case None
    then show ?thesis using its by simp
  next
    case (Some a)
    obtain it :: item where "card_item ev final_url host rls crd a = Inr it"
      and "discounted_value it = None \<longleftrightarrow> price_value it = None"
      using card_item_total [of ev final_url host rls crd a] by auto
    then show ?thesis using its Some by (simp add: ebind_Inr)
  qed
qed

lemma scrape_category_page_total:
  "\<exists>its. scrape_category_page ev final_url soup rls = Inr its \<and>
         (\<forall>it \<in> set its. discounted_value it = None \<longleftrightarrow> price_value it = None)"
  unfolding scrape_category_page_def Let_def by (rule scrape_cards_total)

lemma error_item_values:
  "discounted_value (error_item ev u msg) = None" "price_value (error_item ev u msg) = None"
  "source (error_item ev u msg) = U ''error''"
  "price_text (error_item ev u msg) = U ''fetch_failed: '' @ msg"
  by (simp_all add: error_item_def)

section \<open>Properties of the pagination walker and of the batch\<close>

lemma fresh_requests_append:
  "fresh_requests (f @ [(u, r)]) S \<longleftrightarrow>
     fresh_requests f S \<and> u \<notin> S \<and> u \<notin> {x. \<exists>v. (v, Some x) \<in> set f}"
proof (induction f arbitrary: S)
  case Nil
  show ?case by simp
next
  case (Cons p f)
  obtain v q where p: "p = (v, q)" by (cases p)
  show ?case unfolding p by (cases q) (auto simp: Cons.IH)
qed

lemma fresh_requests_distinct:
  "fresh_requests f S \<Longrightarrow> \<forall>p \<in> set (butlast f). snd p = Some (fst p) \<Longrightarrow>
   distinct (map fst f) \<and> set (map fst f) \<inter> S = {}"
proof (induction f arbitrary: S)
  case Nil
  show ?case by simp
next
  case (Cons p f)
  obtain u r where p: "p = (u, r)" by (cases p)
  show ?case
  proof (cases "f = []")
    case True
    then show ?thesis using Cons.prems p by simp
  next
    case False
    then have r: "r = Some u" using Cons.prems(2) p by simp
    have b: "\<forall>p \<in> set (butlast f). snd p = Some (fst p)" using Cons.prems(2) False by simp
    have "fresh_requests f (insert u S)" using Cons.prems(1) p r by simp
    from Cons.IH [OF this b] show ?thesis using Cons.prems(1) p by auto
  qed
qed

text \<open>The invariant of the pagination loop, and what holds when it ends.\<close>

lemma walk_result:
  fixes st :: walk_state
  assumes "pages st = int (length (fetched st))"
    and "seen st = {x. \<exists>v. (v, Some x) \<in> set (fetched st)}"
    and "fresh_requests (fetched st) {}"
    and "next_url st \<notin> seen st"
    and "\<forall>p \<in> set (fetched st). snd p \<noteq> None"
    and "\<forall>it \<in> set (items st). discounted_value it = None \<longleftrightarrow> price_value it = None"
  shows "\<exists>st'. walk ev rls max_pages st = Inr st'
           \<and> pages st' = int (length (fetched st'))
           \<and> pages st' \<le> max max_pages (pages st)
           \<and> fresh_requests (fetched st') {}
           \<and> (\<forall>p \<in> set (butlast (fetched st')). snd p \<noteq> None)
           \<and> (\<forall>it \<in> set (items st'). discounted_value it = None \<longleftrightarrow> price_value it = None)"
  using assms
proof (induction "nat (max_pages - pages st)" arbitrary: st rule: less_induct)
  case less
  note inv = less.prems
  show ?case
  proof (cases "next_url st \<noteq> [] \<and> pages st < max_pages")
    case False
    then have "walk ev rls max_pages st = Inr st" by (subst walk.simps) auto
    moreover have "\<forall>p \<in> set (butlast (fetched st)). snd p \<noteq> None"
      using inv(5) by (auto dest: in_set_butlastD)
    ultimately show ?thesis using inv by simp
  next
    case True
    show ?thesis
    proof (cases "get_html_safe ev (next_url st)")
      case (Inl msg)
      define st' where "st' = st\<lparr>pages := pages st + 1,
                     items := items st @ [error_item ev (next_url st) msg],
                     fetched := fetched st @ [(next_url st, None)]\<rparr>"
      have w: "walk ev rls max_pages st = Inr st'"
        using True Inl by (subst walk.simps) (simp add: st'_def)
      have "fresh_requests (fetched st') {}"
        using inv(2,3,4) by (simp add: st'_def fresh_requests_append)
      moreover have "\<forall>it \<in> set (items st'). discounted_value it = None \<longleftrightarrow> price_value it = None"
        using inv(6) by (simp add: st'_def error_item_values)
      ultimately show ?thesis using w inv(1,5) True by (simp add: st'_def)
    next
      case (Inr page)
      obtain final_url html where page: "page = (final_url, html)" by (cases page)
      obtain its where its: "scrape_category_page ev final_url html rls = Inr its"
        and itsP: "\<forall>it \<in> set its. discounted_value it = None \<longleftrightarrow> price_value it = None"
        using scrape_category_page_total [of ev final_url html rls] by auto
      define st1 where "st1 = st\<lparr>pages := pages st + 1,
                                items := items st @ its,
                                seen := insert final_url (seen st),
                                fetched := fetched st @ [(next_url st, Some final_url)]\<rparr>"
      have w: "walk ev rls max_pages st =
          (case find_next_page_url ev html final_url of
             None \<Rightarrow> Inr st1
           | Some nxt \<Rightarrow> if nxt = [] \<or> nxt \<in> seen st1 then Inr st1
                         else walk ev rls max_pages (st1\<lparr>next_url := nxt\<rparr>))"
        unfolding st1_def using True Inr page its
        by (subst walk.simps) (simp add: Let_def cong: option.case_cong if_cong)
      have i1: "pages st1 = int (length (fetched st1))" using inv(1) by (simp add: st1_def)
      have i2: "seen st1 = {x. \<exists>v. (v, Some x) \<in> set (fetched st1)}"
        using inv(2) by (auto simp: st1_def)
      have i3: "fresh_requests (fetched st1) {}"
        using inv(2,3,4) by (simp add: st1_def fresh_requests_append)
      have i5: "\<forall>p \<in> set (fetched st1). snd p \<noteq> None" using inv(5) by (simp add: st1_def)
      have i6: "\<forall>it \<in> set (items st1). discounted_value it = None \<longleftrightarrow> price_value it = None"
        using inv(6) itsP by (auto simp: st1_def)
      have le: "pages st1 \<le> max max_pages (pages st)" using True by (simp add: st1_def)
      have stop: "\<exists>st'. Inr st1 = (Inr st' :: py_error + walk_state)
           \<and> pages st' = int (length (fetched st'))
           \<and> pages st' \<le> max max_pages (pages st)
           \<and> fresh_requests (fetched st') {}
           \<and> (\<forall>p \<in> set (butlast (fetched st')). snd p \<noteq> None)
           \<and> (\<forall>it \<in> set (items st'). discounted_value it = None \<longleftrightarrow> price_value it = None)"
        using i1 i3 i5 i6 le by (auto dest: in_set_butlastD)
      show ?thesis
      proof (cases "find_next_page_url ev html final_url")
        case None
        then show ?thesis using w stop by simp
      next
        case (Some nxt)
        show ?thesis
        proof (cases "nxt = [] \<or> nxt \<in> seen st1")
          case True
          then show ?thesis using w Some stop by simp
        next
          case False
          define st2 where "st2 = st1\<lparr>next_url := nxt\<rparr>"
          have m: "nat (max_pages - pages st2) < nat (max_pages - pages st)"
            using True by (simp add: st2_def st1_def)
          have "\<exists>st'. walk ev rls max_pages st2 = Inr st'
             \<and> pages st' = int (length (fetched st'))
             \<and> pages st' \<le> max max_pages (pages st2)
             \<and> fresh_requests (fetched st') {}
             \<and> (\<forall>p \<in> set (butlast (fetched st')). snd p \<noteq> None)
             \<and> (\<forall>it \<in> set (items st'). discounted_value it = None \<longleftrightarrow> price_value it = None)"
            by (rule less.hyps [OF m])
              (use i1 i2 i3 i5 i6 False in \<open>simp_all add: st2_def\<close>)
          moreover have "max max_pages (pages st2) \<le> max max_pages (pages st)"
            using True by (simp add: st2_def st1_def)
          moreover have "walk ev rls max_pages st = walk ev rls max_pages st2"
            using w Some False by (simp add: st2_def)
          ultimately show ?thesis by (metis order_trans)
        qed
      qed
    qed
  qed
qed

lemma walk_start:
  "\<exists>st. walk ev rls max_pages (start_state start_url) = Inr st
      \<and> int (length (fetched st)) \<le> max 0 max_pages
      \<and> fresh_requests (fetched st) {}
      \<and> (\<forall>p \<in> set (butlast (fetched st)). snd p \<noteq> None)
      \<and> (\<forall>it \<in> set (items st). discounted_value it = None \<longleftrightarrow> price_value it = None)"
proof -
  have "\<exists>st'. walk ev rls max_pages (start_state start_url) = Inr st'
           \<and> pages st' = int (length (fetched st'))
           \<and> pages st' \<le> max max_pages (pages (start_state start_url))
           \<and> fresh_requests (fetched st') {}
           \<and> (\<forall>p \<in> set (butlast (fetched st')). snd p \<noteq> None)
           \<and> (\<forall>it \<in> set (items st'). discounted_value it = None \<longleftrightarrow> price_value it = None)"
    by (rule walk_result) (simp_all add: start_state_def)
  then obtain st' where "walk ev rls max_pages (start_state start_url) = Inr st'"
    "pages st' = int (length (fetched st'))"
    "pages st' \<le> max max_pages (pages (start_state start_url))"
    "fresh_requests (fetched st') {}"
    "\<forall>p \<in> set (butlast (fetched st')). snd p \<noteq> None"
    "\<forall>it \<in> set (items st'). discounted_value it = None \<longleftrightarrow> price_value it = None"
    by blast
  moreover have "pages (start_state start_url) = 0" by (simp add: start_state_def)
  ultimately show ?thesis by (intro exI [of _ st']) (simp add: max.commute)
qed

lemma scrape_category_all_pages_walk:
  "scrape_category_all_pages ev start_url rls max_pages =
     ebind (walk ev rls max_pages (start_state start_url)) (\<lambda>st. Inr (items st))"
  by (simp add: scrape_category_all_pages_def start_state_def)

text \<open>
  C3 (as amended). The pagination walker returns after at most \<open>maxPages\<close> fetches, for
  every web, cyclic or not, and it never requests a URL that an earlier fetch of the crawl
  resolved to. When every fetched URL resolves to itself (no redirect), no URL is fetched
  twice.
\<close>

theorem walk_terminates_fresh:
  "\<exists>st. walk ev rls max_pages (start_state start_url) = Inr st
      \<and> scrape_category_all_pages ev start_url rls max_pages = Inr (items st)
      \<and> int (length (fetched st)) \<le> max 0 max_pages
      \<and> fresh_requests (fetched st) {}
      \<and> ((\<forall>p \<in> set (fetched st). snd p = None \<or> snd p = Some (fst p))
           \<longrightarrow> distinct (map fst (fetched st)))"
proof -
  obtain st where st: "walk ev rls max_pages (start_state start_url) = Inr st"
    "int (length (fetched st)) \<le> max 0 max_pages"
    "fresh_requests (fetched st) {}"
    "\<forall>p \<in> set (butlast (fetched st)). snd p \<noteq> None"
    using walk_start [of ev rls max_pages start_url] by blast
  have "distinct (map fst (fetched st))"
    if "\<forall>p \<in> set (fetched st). snd p = None \<or> snd p = Some (fst p)"
  proof -
    have "\<forall>p \<in> set (butlast (fetched st)). snd p = Some (fst p)"
    proof
      fix p assume p: "p \<in> set (butlast (fetched st))"
      then have "p \<in> set (fetched st)" by (rule in_set_butlastD)
      with that have "snd p = None \<or> snd p = Some (fst p)" by blast
      moreover have "snd p \<noteq> None" using st(4) p by blast
      ultimately show "snd p = Some (fst p)" by blast
    qed
    from fresh_requests_distinct [OF st(3) this] show ?thesis by simp
  qed
  then show ?thesis using st
    by (intro exI [of _ st]) (simp add: scrape_category_all_pages_walk ebind_Inr)
qed

lemma loop_page_next: "find_next_page_url redirect_env loop_page (U ''/a'') = Some (U ''/b'')"
  by (simp add: find_next_page_url_def truthy_attr_def select_one_def loop_page_def attr_def
      redirect_env_def U_def)

lemma redirect_fetch: "get_html_safe redirect_env u = Inr (U ''/a'', loop_page)"
  by (simp add: get_html_safe_def redirect_env_def)

lemma redirect_walk:
  "map_sum id fetched (walk redirect_env no_rules 3 (start_state (U ''/a''))) =
     Inr [(U ''/a'', Some (U ''/a'')), (U ''/b'', Some (U ''/a'')), (U ''/b'', Some (U ''/a''))]"
proof -
  obtain its where its: "scrape_category_page redirect_env (U ''/a'') loop_page no_rules = Inr its"
    using scrape_category_page_total by blast
  have ab: "U ''/b'' \<noteq> U ''/a''" "U ''/a'' \<noteq> []" "U ''/b'' \<noteq> []" by (simp_all add: U_def)
  define s1 where "s1 = \<lparr>items = its, seen = {U ''/a''}, next_url = U ''/b'', pages = 1,
     fetched = [(U ''/a'', Some (U ''/a''))]\<rparr>"
  define s2 where "s2 = \<lparr>items = its @ its, seen = {U ''/a''}, next_url = U ''/b'', pages = 2,
     fetched = [(U ''/a'', Some (U ''/a'')), (U ''/b'', Some (U ''/a''))]\<rparr>"
  define s3 where "s3 = \<lparr>items = (its @ its) @ its, seen = {U ''/a''}, next_url = U ''/b'', pages = 3,
     fetched = [(U ''/a'', Some (U ''/a'')), (U ''/b'', Some (U ''/a'')), (U ''/b'', Some (U ''/a''))]\<rparr>"
  have 1: "walk redirect_env no_rules 3 (start_state (U ''/a'')) = walk redirect_env no_rules 3 s1"
    by (subst walk.simps)
      (simp add: start_state_def redirect_fetch its loop_page_next ab s1_def Let_def)
  have 2: "walk redirect_env no_rules 3 s1 = walk redirect_env no_rules 3 s2"
    by (subst walk.simps)
      (simp add: s1_def redirect_fetch its loop_page_next ab s2_def Let_def)
  have 3: "walk redirect_env no_rules 3 s2 = walk redirect_env no_rules 3 s3"
    by (subst walk.simps)
      (simp add: s2_def redirect_fetch its loop_page_next ab s3_def Let_def)
  have 4: "walk redirect_env no_rules 3 s3 = Inr s3"
    by (subst walk.simps) (simp add: s3_def)
  show ?thesis unfolding 1 2 3 4 by (simp add: s3_def)
qed

text \<open>
  C3 as stated fails under redirects: the next link is compared with the visited set
  before it is fetched, so a link that redirects to a visited page is fetched, here the
  page \<open>/a\<close> three times through the link \<open>/b\<close>, until the page budget stops the loop.
\<close>

theorem walk_revisits_counterexample:
  "map_sum id fetched (walk redirect_env no_rules 3 (start_state (U ''/a''))) =
     Inr [(U ''/a'', Some (U ''/a'')), (U ''/b'', Some (U ''/a'')), (U ''/b'', Some (U ''/a''))]
   \<and> map_sum id (\<lambda>st. distinct (map snd (fetched st)))
        (walk redirect_env no_rules 3 (start_state (U ''/a''))) = Inr False
   \<and> map_sum id (\<lambda>st. distinct (map fst (fetched st)))
        (walk redirect_env no_rules 3 (start_state (U ''/a''))) = Inr False"
proof -
  obtain st where st: "walk redirect_env no_rules 3 (start_state (U ''/a'')) = Inr st"
    and f: "fetched st =
      [(U ''/a'', Some (U ''/a'')), (U ''/b'', Some (U ''/a'')), (U ''/b'', Some (U ''/a''))]"
    using redirect_walk
    by (cases "walk redirect_env no_rules 3 (start_state (U ''/a''))") auto
  show ?thesis unfolding st by (simp add: f)
qed

lemma next_page_next: "find_next_page_url cycle_env (next_page nxt) b = (if nxt = [] then None else Some nxt)"
  by (simp add: find_next_page_url_def truthy_attr_def select_one_def next_page_def attr_def
      cycle_env_def)

lemma cycle_fetch:
  "get_html_safe cycle_env (U ''/a'') = Inr (U ''/a'', next_page (U ''/b''))"
  "get_html_safe cycle_env (U ''/b'') = Inr (U ''/b'', next_page (U ''/a''))"
  by (simp_all add: get_html_safe_def cycle_env_def U_def)

lemma cycle_walk:
  "map_sum id fetched (walk cycle_env no_rules 20 (start_state (U ''/a''))) =
     Inr [(U ''/a'', Some (U ''/a'')), (U ''/b'', Some (U ''/b''))]"
  "map_sum id fetched (walk cycle_env no_rules 1 (start_state (U ''/a''))) =
     Inr [(U ''/a'', Some (U ''/a''))]"
proof -
  obtain ia where ia: "scrape_category_page cycle_env (U ''/a'') (next_page (U ''/b'')) no_rules = Inr ia"
    using scrape_category_page_total by blast
  obtain ib where ib: "scrape_category_page cycle_env (U ''/b'') (next_page (U ''/a'')) no_rules = Inr ib"
    using scrape_category_page_total by blast
  have ab: "U ''/b'' \<noteq> U ''/a''" "U ''/a'' \<noteq> []" "U ''/b'' \<noteq> []" by (simp_all add: U_def)
  define s1 where "s1 = \<lparr>items = ia, seen = {U ''/a''}, next_url = U ''/b'', pages = 1,
     fetched = [(U ''/a'', Some (U ''/a''))]\<rparr>"
  define s2 where "s2 = \<lparr>items = ia @ ib, seen = {U ''/b'', U ''/a''}, next_url = U ''/b'',
     pages = 2, fetched = [(U ''/a'', Some (U ''/a'')), (U ''/b'', Some (U ''/b''))]\<rparr>"
  have 1: "walk cycle_env no_rules m (start_state (U ''/a'')) = walk cycle_env no_rules m s1"
    if "0 < m" for m
    using that by (subst walk.simps)
      (simp add: start_state_def cycle_fetch ia next_page_next ab s1_def Let_def)
  have 2: "walk cycle_env no_rules 20 s1 = Inr s2"
    by (subst walk.simps)
      (simp add: s1_def cycle_fetch ib next_page_next ab s2_def Let_def)
  have 3: "walk cycle_env no_rules 1 s1 = Inr s1"
    by (subst walk.simps) (simp add: s1_def)
  show "map_sum id fetched (walk cycle_env no_rules 20 (start_state (U ''/a''))) =
     Inr [(U ''/a'', Some (U ''/a'')), (U ''/b'', Some (U ''/b''))]"
    using 1 [of 20] 2 by (simp add: s2_def)
  show "map_sum id fetched (walk cycle_env no_rules 1 (start_state (U ''/a''))) =
     Inr [(U ''/a'', Some (U ''/a''))]"
    using 1 [of 1] 3 by (simp add: s1_def)
qed

theorem walk_terminates_fresh_witness:
  "map_sum id fetched (walk cycle_env no_rules 20 (start_state (U ''/a''))) =
     Inr [(U ''/a'', Some (U ''/a'')), (U ''/b'', Some (U ''/b''))]
   \<and> map_sum id (\<lambda>st. distinct (map fst (fetched st)))
       (walk cycle_env no_rules 20 (start_state (U ''/a''))) = Inr True
   \<and> map_sum id fetched (walk cycle_env no_rules 1 (start_state (U ''/a''))) =
     Inr [(U ''/a'', Some (U ''/a''))]
   \<and> map_sum id (\<lambda>st. length (fetched st))
       (walk redirect_env no_rules 3 (start_state (U ''/a''))) = Inr 3
   \<and> map_sum id (\<lambda>st. fresh_requests (fetched st) {})
       (walk redirect_env no_rules 3 (start_state (U ''/a''))) = Inr True"
proof -
  obtain st where st: "walk cycle_env no_rules 20 (start_state (U ''/a'')) = Inr st"
    and d: "(\<forall>p \<in> set (fetched st). snd p = None \<or> snd p = Some (fst p))
           \<longrightarrow> distinct (map fst (fetched st))"
    using walk_terminates_fresh [of cycle_env no_rules 20 "U ''/a''"] by blast
  have f: "fetched st = [(U ''/a'', Some (U ''/a'')), (U ''/b'', Some (U ''/b''))]"
    using cycle_walk(1) st by simp
  have "\<forall>p \<in> set (fetched st). snd p = None \<or> snd p = Some (fst p)" by (simp add: f)
  with d have dist: "distinct (map fst (fetched st))" by blast
  obtain rt where rt: "walk redirect_env no_rules 3 (start_state (U ''/a'')) = Inr rt"
    and fr: "fresh_requests (fetched rt) {}"
    using walk_terminates_fresh [of redirect_env no_rules 3 "U ''/a''"] by blast
  have "length (fetched rt) = 3" using redirect_walk rt by simp
  then show ?thesis using st f dist rt fr cycle_walk(2) by simp
qed

lemma scrape_url_total:
  "\<exists>its. scrape_url ev u rls crawl_pagination max_pages = Inr its \<and>
         (\<forall>it \<in> set its. discounted_value it = None \<longleftrightarrow> price_value it = None)"
proof (cases "get_html_safe ev u")
  case (Inl msg)
  then show ?thesis by (simp add: scrape_url_def error_item_values)
next
  case (Inr page)
  obtain final_url soup where page: "page = (final_url, soup)" by (cases page)
  have p: "\<exists>its. scrape_product ev final_url soup rls = Inr its \<and>
         (\<forall>it \<in> set its. discounted_value it = None \<longleftrightarrow> price_value it = None)"
    using scrape_product_item [of ev final_url soup rls] by auto
  have c: "\<exists>its. scrape_category_all_pages ev final_url rls max_pages = Inr its \<and>
         (\<forall>it \<in> set its. discounted_value it = None \<longleftrightarrow> price_value it = None)"
    using walk_start [of ev rls max_pages final_url]
    by (auto simp: scrape_category_all_pages_walk ebind_Inr)
  show ?thesis
    using p c scrape_category_page_total [of ev final_url soup rls] Inr page
    by (simp add: scrape_url_def)
qed

lemma scrape_all_outcomes:
  "\<exists>outs. list_all2 (\<lambda>u out. scrape_url ev u rls crawl_pagination max_pages = Inr out) urls outs
          \<and> scrape_all ev rls crawl_pagination max_pages urls = Inr (concat outs)"
proof (induction urls)
  case Nil
  show ?case by simp
next
  case (Cons u urls)
  obtain out where out: "scrape_url ev u rls crawl_pagination max_pages = Inr out"
    using scrape_url_total by blast
  from Cons obtain outs where
    "list_all2 (\<lambda>u out. scrape_url ev u rls crawl_pagination max_pages = Inr out) urls outs"
    "scrape_all ev rls crawl_pagination max_pages urls = Inr (concat outs)" by blast
  then have "list_all2 (\<lambda>u out. scrape_url ev u rls crawl_pagination max_pages = Inr out)
               (u # urls) (out # outs)
     \<and> scrape_all ev rls crawl_pagination max_pages (u # urls) = Inr (concat (out # outs))"
    using out by (simp add: ebind_Inr)
  then show ?case by blast
qed

text \<open>
  C9. Every item of the product extractor, of the category-card extractor, of the
  pagination walker, every error item, and so every item of a batch, has a discounted
  value exactly when it has a price value.
\<close>

theorem discounted_iff_price:
  "(\<exists>it. scrape_product ev final_url soup rls = Inr [it]
         \<and> (discounted_value it = None \<longleftrightarrow> price_value it = None))
   \<and> (\<exists>its. scrape_category_page ev final_url soup rls = Inr its
         \<and> (\<forall>it \<in> set its. discounted_value it = None \<longleftrightarrow> price_value it = None))
   \<and> (\<exists>its. scrape_category_all_pages ev final_url rls max_pages = Inr its
         \<and> (\<forall>it \<in> set its. discounted_value it = None \<longleftrightarrow> price_value it = None))
   \<and> (discounted_value (error_item ev u msg) = None \<longleftrightarrow> price_value (error_item ev u msg) = None)
   \<and> (\<exists>its. scrape_all ev rls crawl_pagination max_pages urls = Inr its
         \<and> (\<forall>it \<in> set its. discounted_value it = None \<longleftrightarrow> price_value it = None))"
proof -
  have c: "\<exists>its. scrape_category_all_pages ev final_url rls max_pages = Inr its \<and>
         (\<forall>it \<in> set its. discounted_value it = None \<longleftrightarrow> price_value it = None)"
    using walk_start [of ev rls max_pages final_url]
    by (auto simp: scrape_category_all_pages_walk ebind_Inr)
  obtain outs where outs:
    "list_all2 (\<lambda>u out. scrape_url ev u rls crawl_pagination max_pages = Inr out) urls outs"
    "scrape_all ev rls crawl_pagination max_pages urls = Inr (concat outs)"
    using scrape_all_outcomes by blast
  have "\<forall>it \<in> set (concat outs). discounted_value it = None \<longleftrightarrow> price_value it = None"
  proof
    fix it :: item assume "it \<in> set (concat outs)"
    then obtain out where o: "out \<in> set outs" "it \<in> set out" by auto
    then obtain i where i: "i < length outs" "outs ! i = out" by (auto simp: in_set_conv_nth)
    have "scrape_url ev (urls ! i) rls crawl_pagination max_pages = Inr out"
      using outs(1) i by (auto simp: list_all2_conv_all_nth)
    then show "discounted_value it = None \<longleftrightarrow> price_value it = None"
      using scrape_url_total [of ev "urls ! i" rls crawl_pagination max_pages] o(2) by auto
  qed
  then have a: "\<exists>its. scrape_all ev rls crawl_pagination max_pages urls = Inr its
         \<and> (\<forall>it \<in> set its. discounted_value it = None \<longleftrightarrow> price_value it = None)"
    using outs(2) by blast
  show ?thesis
    using scrape_product_item [of ev final_url soup rls]
      scrape_category_page_total [of ev final_url soup rls] c a
    by (simp add: error_item_values)
qed

section \<open>The extractors on the example documents\<close>

lemma clean_text_price: "clean_text (U ''$5.00'') = U ''$5.00''"
  by (simp add: clean_text_def strip_def U_def is_space_def)

lemma first_price_5: "first_price (U ''$5.00'') = Some 5"
  by (simp add: first_price_def U_def is_digit_def number_at_def number_end_def has_frac_def
      py_float_def digits_val_def)

theorem extract_image_url_spec_witness:
  "map_sum id image_url (card_item redirect_env (U ''/a'') [] no_rules loop_card loop_anchor)
     = Inr (U ''/case.jpg'')"
proof -
  obtain it :: item where
    it: "card_item redirect_env (U ''/a'') [] no_rules loop_card loop_anchor = Inr it"
    using card_item_total [of redirect_env "U ''/a''" "[]" no_rules loop_card loop_anchor]
    by auto
  have s: "select_one loop_card (U ''img[data-src]'')
             = Some (img_el [(U ''data-src'', U ''/case.jpg'')])"
    by (simp add: select_one_def loop_card_def U_def)
  have "image_url it = extract_image_url loop_card"
    using extract_image_url_spec [of loop_card redirect_env "U ''/a''" loop_page no_rules it
        "[]" loop_card loop_anchor it] it
    by blast
  also have "\<dots> = U ''/case.jpg''"
  proof -
    have e: "extract_image_url loop_card =
       (case select_one loop_card (U ''img[data-src]'') of
        Some el \<Rightarrow> or_str (attr el (U ''data-src'')) (or_str (attr el (U ''src'')) [])
      | None \<Rightarrow>
         (case select_one loop_card (U ''img[srcset]'') of
            Some el \<Rightarrow> or_str (attr el (U ''data-src'')) (or_str (attr el (U ''src'')) [])
          | None \<Rightarrow>
             (case select_one loop_card (U ''img[src]'') of
                Some el \<Rightarrow> or_str (attr el (U ''data-src'')) (or_str (attr el (U ''src'')) [])
              | None \<Rightarrow> [])))"
      using extract_image_url_spec [of loop_card redirect_env "U ''/a''" loop_page no_rules it
        "[]" loop_card loop_anchor it]
      by blast
    show ?thesis unfolding e s by (simp add: img_el_def attr_def or_str_def U_def)
  qed
  finally show ?thesis using it by simp
qed

theorem discounted_iff_price_witness:
  "map_sum id (map price_value) (scrape_category_page redirect_env (U ''/a'') loop_page no_rules)
     = Inr [Some 5]
   \<and> map_sum id (list_all (\<lambda>it. discounted_value it \<noteq> None))
       (scrape_category_page redirect_env (U ''/a'') loop_page no_rules) = Inr True"
proof -
  obtain its :: "item list" where
    its: "scrape_category_page redirect_env (U ''/a'') loop_page no_rules = Inr its"
    and iff: "\<forall>it \<in> set its. discounted_value it = None \<longleftrightarrow> price_value it = None"
    using discounted_iff_price [of redirect_env "U ''/a''" loop_page no_rules 20 "U ''/a''"
        "[]" True "[]"]
    by blast
  have sel: "select loop_page (U ''ul.product-listing li.item'') = [loop_card]"
    by (simp add: loop_page_def U_def)
  have a: "select_one loop_card (U ''a[href]'') = Some loop_anchor"
    by (simp add: select_one_def loop_card_def)
  have d: "attr_price redirect_env (select_one loop_card (U ''[data-price-amount]'')) = None"
    by (simp add: attr_price_def truthy_attr_def select_one_def loop_card_def U_def)
  have p: \<open>select_one loop_card (U ''.price, .price-final_price .price, [class*="price"]'')
            = Some (Element [] (U ''$5.00'') (\<lambda>sel. []))\<close>
    by (simp add: select_one_def loop_card_def U_def)
  obtain it :: item where
    it: "card_item redirect_env (U ''/a'') [] no_rules loop_card loop_anchor = Inr it"
    and pv: "price_value it = Some 5"
    by (simp add: card_item_def Let_def d p clean_text_price parse_price_number_first
        first_price_5 ebind_Inr)
  have h: "hostname redirect_env (U ''/a'') = None" by (simp add: redirect_env_def)
  have "scrape_category_page redirect_env (U ''/a'') loop_page no_rules = Inr [it]"
    by (simp add: scrape_category_page_def Let_def sel a it ebind_Inr h or_str_def)
  then have "its = [it]" using its by simp
  then show ?thesis using its iff pv by simp
qed

end
